theory Spec2Isabelle
  imports Complex_Main "HOL-Library.AList" "HOL-Library.Sublist"
begin

section \<open>JavaScript values used by envize\<close>

text \<open>
  A JavaScript string is a \<^typ>\<open>string\<close>. An object used as a dictionary
  (\<^verbatim>\<open>Record<string, T>\<close>) and a \<^verbatim>\<open>Map\<close> are association lists in enumeration order:
  \<^verbatim>\<open>Object.entries\<close> is the list itself, and the list holds the own properties. A
  \<^verbatim>\<open>Map\<close> has nothing but its entries: \<^verbatim>\<open>map.get(key)\<close> is \<^const>\<open>map_of\<close> and
  \<^verbatim>\<open>map.set(key, v)\<close> is \<^const>\<open>AList.update\<close>, which replaces the value of a key in place
  and appends a new key at the end. An object has every key once, so an association list
  that stands for an object given from outside has distinct keys. A string is a list of
  code units below 256. A thrown error is a value of type \<open>js_error\<close>, with its message,
  and a function that may throw returns \<open>js_error + 'a\<close>.
\<close>

datatype js_error = Error string | TypeError string

subsection \<open>Properties of plain objects\<close>

text \<open>
  An object made by a literal, by a spread or by \<^verbatim>\<open>JSON.parse\<close> has \<^verbatim>\<open>Object.prototype\<close>
  as its prototype, so \<^verbatim>\<open>obj[key]\<close> and \<^verbatim>\<open>key in obj\<close> also find the properties of that
  prototype: for a name of \<open>objectPrototypeNames\<close> that is no own property, \<^verbatim>\<open>obj[key]\<close>
  is the inherited member (a function, or the prototype itself for \<^verbatim>\<open>__proto__\<close>), which
  is truthy and has no property \<^verbatim>\<open>value\<close>, and \<^verbatim>\<open>key in obj\<close> is true.
\<close>

definition objectPrototypeNames :: "string list" where
  "objectPrototypeNames =
     [''constructor'', ''__defineGetter__'', ''__defineSetter__'', ''hasOwnProperty'',
      ''__lookupGetter__'', ''__lookupSetter__'', ''isPrototypeOf'', ''propertyIsEnumerable'',
      ''toString'', ''valueOf'', ''__proto__'', ''toLocaleString'']"

datatype 'v property = Own 'v | Inherited

text \<open>\<^verbatim>\<open>obj[key]\<close>, with \<open>None\<close> for \<^verbatim>\<open>undefined\<close>, and \<^verbatim>\<open>key in obj\<close>.\<close>

definition get_property :: "(string \<times> 'v) list \<Rightarrow> string \<Rightarrow> 'v property option" where
  "get_property obj key =
     (case map_of obj key of
        Some v \<Rightarrow> Some (Own v)
      | None \<Rightarrow> if key \<in> set objectPrototypeNames then Some Inherited else None)"

definition has_property :: "(string \<times> 'v) list \<Rightarrow> string \<Rightarrow> bool" where
  "has_property obj key = (get_property obj key \<noteq> None)"

text \<open>The assignment \<^verbatim>\<open>obj[key] = v\<close>: it replaces the value of an own key in place and
  appends a new key at the end; for the key \<^verbatim>\<open>__proto__\<close> that is no own property it goes
  to the setter of the prototype and makes no own property.\<close>

definition assign :: "string \<Rightarrow> 'v \<Rightarrow> (string \<times> 'v) list \<Rightarrow> (string \<times> 'v) list" where
  "assign key v obj =
     (if key = ''__proto__'' \<and> map_of obj key = None then obj else AList.update key v obj)"

definition newline :: char where
  "newline = CHR 0x0A"

definition squote :: char where
  "squote = CHR 0x27"

definition dquote :: char where
  "dquote = CHR 0x22"

definition bslash :: char where
  "bslash = CHR 0x5C"

text \<open>\<^verbatim>\<open>s.indexOf(pat)\<close>: the first position at which \<open>pat\<close> occurs, \<open>None\<close> for \<^verbatim>\<open>-1\<close>.\<close>

fun indexOf :: "string \<Rightarrow> string \<Rightarrow> nat option" where
  "indexOf [] pat = (if pat = [] then Some 0 else None)"
| "indexOf (c # cs) pat =
     (if prefix pat (c # cs) then Some 0 else map_option Suc (indexOf cs pat))"

definition includes_str :: "string \<Rightarrow> string \<Rightarrow> bool" where
  "includes_str s pat = (indexOf s pat \<noteq> None)"

definition startsWith :: "string \<Rightarrow> string \<Rightarrow> bool" where
  "startsWith s pat = prefix pat s"

definition endsWith :: "string \<Rightarrow> string \<Rightarrow> bool" where
  "endsWith s pat = suffix pat s"

text \<open>\<^verbatim>\<open>s.split('\n')\<close>: the pieces between the separators; the empty string gives one
  empty piece.\<close>

fun split_on :: "char \<Rightarrow> string \<Rightarrow> string list" where
  "split_on sep [] = [[]]"
| "split_on sep (c # cs) =
     (if c = sep then [] # split_on sep cs
      else (case split_on sep cs of [] \<Rightarrow> [[c]] | l # ls \<Rightarrow> (c # l) # ls))"

text \<open>\<^verbatim>\<open>s.trim()\<close> removes white space at both ends; below 256 the white space
  characters are TAB, LF, VT, FF, CR, the space and the no-break space.\<close>

definition isSpace :: "char \<Rightarrow> bool" where
  "isSpace c =
     (c \<in> set [CHR 0x09, CHR 0x0A, CHR 0x0B, CHR 0x0C, CHR 0x0D, CHR 0x20, CHR 0xA0])"

definition trim :: "string \<Rightarrow> string" where
  "trim s = rev (dropWhile isSpace (rev (dropWhile isSpace s)))"

text \<open>\<^verbatim>\<open>s.slice(1, -1)\<close>: from position 1 up to, not including, the last position.\<close>

definition slice_1_m1 :: "string \<Rightarrow> string" where
  "slice_1_m1 s = take (length s - 2) (drop 1 s)"

section \<open>Data model (src/types.ts)\<close>

record EnvVariable =
  var_value :: string
  var_source :: string

text \<open>Of a \<^verbatim>\<open>Profile\<close> the resolver reads \<^verbatim>\<open>name\<close> and \<^verbatim>\<open>variables\<close>; \<^verbatim>\<open>path\<close> and
  \<^verbatim>\<open>metadata\<close> are not read by any function below and are left out.\<close>

record Profile =
  name :: string
  isLocal :: bool
  variables :: "(string \<times> string) list"

record Conflict =
  variable :: string
  profiles :: "string list"
  winner :: string

record ResolvedEnv =
  resolved_variables :: "(string \<times> EnvVariable) list"
  conflicts :: "Conflict list"

section \<open>ProfileStore (src/core/ProfileStore.ts)\<close>

text \<open>The body of the loop of \<^verbatim>\<open>parseVariables\<close>, for one line.\<close>

definition parseVariablesLine ::
  "string \<Rightarrow> (string \<times> string) list \<Rightarrow> (string \<times> string) list" where
  "parseVariablesLine line vars =
     (let trimmed = trim line in
      if trimmed = [] \<or> startsWith trimmed ''#'' then vars
      else (case indexOf trimmed ''='' of
              None \<Rightarrow> vars
            | Some eqIndex \<Rightarrow>
                (let key = trim (take eqIndex trimmed);
                     value0 = trim (drop (eqIndex + 1) trimmed);
                     value1 =
                       (if (startsWith value0 [dquote] \<and> endsWith value0 [dquote]) \<or>
                           (startsWith value0 [squote] \<and> endsWith value0 [squote])
                        then slice_1_m1 value0 else value0)
                 in if key \<noteq> [] then assign key value1 vars else vars)))"

definition parseVariables :: "string \<Rightarrow> (string \<times> string) list" where
  "parseVariables content =
     foldl (\<lambda>vars line. parseVariablesLine line vars) [] (split_on newline content)"

text \<open>
  A file that exists either can be read, and has its text, or cannot (no permission, a
  directory of that name), and then \<^verbatim>\<open>readFileSync\<close> throws an error with some message.
  A profile directory is a map from a profile name to the file \<^verbatim>\<open><name>.env\<close> in it;
  \<^verbatim>\<open>fileExists\<close> is true for every file that the map has.
\<close>

datatype profile_file = ProfileText string | NoAccess string

record ProfileStore =
  globalDir :: "string \<rightharpoonup> profile_file"
  localDir :: "string \<rightharpoonup> profile_file"

definition loadProfileFromPath :: "profile_file \<Rightarrow> string \<Rightarrow> bool \<Rightarrow> js_error + Profile" where
  "loadProfileFromPath file nm loc =
     (case file of
        NoAccess msg \<Rightarrow> Inl (Error msg)
      | ProfileText content \<Rightarrow>
          Inr \<lparr>name = nm, isLocal = loc, variables = parseVariables content\<rparr>)"

text \<open>\<open>Inr None\<close> is the result \<^verbatim>\<open>null\<close>.\<close>

definition loadProfile :: "ProfileStore \<Rightarrow> string \<Rightarrow> js_error + Profile option" where
  "loadProfile store nm =
     (case localDir store nm of
        Some file \<Rightarrow> map_sum id Some (loadProfileFromPath file nm True)
      | None \<Rightarrow>
          (case globalDir store nm of
             Some file \<Rightarrow> map_sum id Some (loadProfileFromPath file nm False)
           | None \<Rightarrow> Inr None))"

section \<open>ProfileResolver\<close>

text \<open>\<^verbatim>\<open>mergeProfile\<close> mutates the variables object and the map of sources; here it
  returns both. The keys are the own keys of the variables of a profile, where
  \<^verbatim>\<open>__proto__\<close> does not occur (\<open>parseVariables\<close> makes no such key), so the assignment
  to \<^verbatim>\<open>variables[key]\<close> is the plain one.\<close>

type_synonym merge_state = "(string \<times> EnvVariable) list \<times> (string \<times> string list) list"

definition mergeEntry :: "string \<Rightarrow> merge_state \<Rightarrow> string \<times> string \<Rightarrow> merge_state" where
  "mergeEntry pname st entry =
     (case st of (vars, variableSources) \<Rightarrow>
        (case entry of (key, val) \<Rightarrow>
           (let sources = (case map_of variableSources key of Some s \<Rightarrow> s | None \<Rightarrow> [])
            in (AList.update key \<lparr>var_value = val, var_source = pname\<rparr> vars,
                AList.update key (sources @ [pname]) variableSources))))"

definition mergeProfile :: "Profile \<Rightarrow> merge_state \<Rightarrow> merge_state" where
  "mergeProfile profile st = foldl (mergeEntry (name profile)) st (variables profile)"

definition detectConflicts :: "(string \<times> string list) list \<Rightarrow> Conflict list" where
  "detectConflicts variableSources =
     map (\<lambda>(v, sources). \<lparr>variable = v, profiles = sources, winner = last sources\<rparr>)
       (filter (\<lambda>(v, sources). length sources > 1) variableSources)"

text \<open>The second loop of \<^verbatim>\<open>resolve\<close> and \<^verbatim>\<open>resolveProfiles\<close> and the returned object.\<close>

definition finish :: "merge_state \<Rightarrow> ResolvedEnv" where
  "finish st = \<lparr>resolved_variables = fst st, conflicts = detectConflicts (snd st)\<rparr>"

text \<open>The loop \<^verbatim>\<open>for (const profile of profiles) this.mergeProfile(...)\<close>.\<close>

definition mergeProfiles :: "merge_state \<Rightarrow> Profile list \<Rightarrow> merge_state" where
  "mergeProfiles st ps = foldl (\<lambda>st p. mergeProfile p st) st ps"

definition resolveProfiles :: "Profile list \<Rightarrow> ResolvedEnv" where
  "resolveProfiles ps = finish (mergeProfiles ([], []) ps)"

fun resolve_loop :: "ProfileStore \<Rightarrow> string list \<Rightarrow> merge_state \<Rightarrow> js_error + merge_state" where
  "resolve_loop store [] st = Inr st"
| "resolve_loop store (nm # names) st =
     (case loadProfile store nm of
        Inl e \<Rightarrow> Inl e
      | Inr None \<Rightarrow> Inl (Error (''Profile not found: '' @ nm))
      | Inr (Some profile) \<Rightarrow> resolve_loop store names (mergeProfile profile st))"

definition resolve :: "ProfileStore \<Rightarrow> string list \<Rightarrow> js_error + ResolvedEnv" where
  "resolve store profileNames =
     (case resolve_loop store profileNames ([], []) of
        Inl e \<Rightarrow> Inl e
      | Inr st \<Rightarrow> Inr (finish st))"

record Diff =
  toSet :: "(string \<times> string) list"
  toUnset :: "string list"

text \<open>The test \<^verbatim>\<open>!current[key] || current[key].value !== envVar.value\<close>: an own entry is
  an object and truthy, an inherited member is truthy and its \<^verbatim>\<open>value\<close> is \<^verbatim>\<open>undefined\<close>,
  which differs from every string.\<close>

definition changed :: "(string \<times> EnvVariable) list \<Rightarrow> string \<Rightarrow> EnvVariable \<Rightarrow> bool" where
  "changed current key envVar =
     (case get_property current key of
        None \<Rightarrow> True
      | Some Inherited \<Rightarrow> True
      | Some (Own cur) \<Rightarrow> var_value cur \<noteq> var_value envVar)"

definition diff :: "(string \<times> EnvVariable) list \<Rightarrow> (string \<times> EnvVariable) list \<Rightarrow> Diff" where
  "diff current nxt =
     \<lparr>toSet =
        foldl (\<lambda>acc (key, envVar).
                 if changed current key envVar then assign key (var_value envVar) acc else acc)
              [] nxt,
      toUnset = filter (\<lambda>key. get_property nxt key = None) (map fst current)\<rparr>"

text \<open>\<^verbatim>\<open>toKeep\<close> gets whatever \<^verbatim>\<open>remaining.variables[key]\<close> is, an own entry or an
  inherited member.\<close>

record Removal =
  rm_toUnset :: "string list"
  toKeep :: "(string \<times> EnvVariable property) list"

definition removalStep ::
  "(string \<times> EnvVariable) list \<Rightarrow> Removal \<Rightarrow> string \<times> EnvVariable \<Rightarrow> Removal" where
  "removalStep remaining acc entry =
     (case get_property remaining (fst entry) of
        Some v \<Rightarrow> acc\<lparr>toKeep := assign (fst entry) v (toKeep acc)\<rparr>
      | None \<Rightarrow> acc\<lparr>rm_toUnset := rm_toUnset acc @ [fst entry]\<rparr>)"

definition computeRemoval ::
  "ProfileStore \<Rightarrow> (string \<times> EnvVariable) list \<Rightarrow> string list \<Rightarrow> js_error + Removal" where
  "computeRemoval store currentVariables remainingProfileNames =
     (case (if length remainingProfileNames > 0
            then map_sum id resolved_variables (resolve store remainingProfileNames)
            else Inr [])
      of Inl e \<Rightarrow> Inl e
       | Inr remaining \<Rightarrow>
           Inr (foldl (removalStep remaining) \<lparr>rm_toUnset = [], toKeep = []\<rparr> currentVariables))"

section \<open>StateManager (src/core/StateManager.ts)\<close>

text \<open>
  The state file holds JSON text, and \<open>load\<close> returns what \<^verbatim>\<open>JSON.parse\<close> makes of it, at the
  type \<^verbatim>\<open>StateData\<close> by a cast that checks nothing. So the values that the state manager
  reads are JSON values: a state is the object with the four members of \<^verbatim>\<open>StateData\<close>, and
  any other value can come out of the file as well. The object of a JSON object has its
  members as own properties, each key once.
\<close>

datatype json =
  JNull
| JBool bool
| JNumber real
| JString string
| JArray "json list"
| JObject "(string \<times> json) list"

text \<open>An \<^verbatim>\<open>EnvVariable\<close> and a \<^verbatim>\<open>StateData\<close> as the values that \<^verbatim>\<open>JSON.stringify\<close> writes
  and \<^verbatim>\<open>JSON.parse\<close> reads back.\<close>

definition env_json :: "EnvVariable \<Rightarrow> json" where
  "env_json e = JObject [(''value'', JString (var_value e)), (''source'', JString (var_source e))]"

definition state_object ::
  "json list \<Rightarrow> (string \<times> json) list \<Rightarrow> (string \<times> json) list \<Rightarrow> string \<Rightarrow> json" where
  "state_object profs vars snap applied =
     JObject [(''active_profiles'', JArray profs), (''variables'', JObject vars),
              (''snapshot'', JObject snap), (''applied_at'', JString applied)]"

text \<open>
  The state file is absent (\<open>None\<close>), cannot be read, holds text that \<^verbatim>\<open>JSON.parse\<close>
  rejects, or holds the text of a JSON value. \<^verbatim>\<open>save\<close> writes the JSON text of the state.
  The time of the call and \<^verbatim>\<open>process.env\<close> are arguments.
\<close>

datatype file_content = Malformed | JsonText json

datatype state_file = Unreadable | Readable file_content

definition getEmptyState :: "string \<Rightarrow> json" where
  "getEmptyState now = state_object [] [] [] now"

definition fileExists :: "state_file option \<Rightarrow> bool" where
  "fileExists f = (f \<noteq> None)"

definition readFile :: "state_file option \<Rightarrow> js_error + file_content" where
  "readFile f =
     (case f of
        None \<Rightarrow> Inl (Error ''ENOENT'')
      | Some Unreadable \<Rightarrow> Inl (Error ''EACCES'')
      | Some (Readable content) \<Rightarrow> Inr content)"

definition JSON_parse :: "file_content \<Rightarrow> js_error + json" where
  "JSON_parse content =
     (case content of Malformed \<Rightarrow> Inl (Error ''SyntaxError'') | JsonText v \<Rightarrow> Inr v)"

text \<open>\<^verbatim>\<open>try { ... } catch { ... }\<close>\<close>

definition try_catch :: "js_error + 'a \<Rightarrow> js_error + 'a \<Rightarrow> js_error + 'a" where
  "try_catch body handler = (case body of Inl e \<Rightarrow> handler | Inr v \<Rightarrow> Inr v)"

definition load :: "state_file option \<Rightarrow> string \<Rightarrow> js_error + json" where
  "load statePath now =
     (if \<not> fileExists statePath then Inr (getEmptyState now)
      else try_catch
             (case readFile statePath of
                Inl e \<Rightarrow> Inl e
              | Inr content \<Rightarrow> JSON_parse content)
             (Inr (getEmptyState now)))"

definition save :: "json \<Rightarrow> state_file option" where
  "save state = Some (Readable (JsonText state))"

text \<open>
  Reading the member \<^verbatim>\<open>snapshot\<close>, \<^verbatim>\<open>active_profiles\<close> or \<^verbatim>\<open>variables\<close> of the loaded
  value: \<^verbatim>\<open>null\<close> has no members and the access throws; an object gives its member, or
  \<^verbatim>\<open>undefined\<close> (\<open>None\<close>); a boolean, a number, a string and an array have no member of
  these names.
\<close>

definition member :: "json \<Rightarrow> string \<Rightarrow> js_error + json option" where
  "member v nm =
     (case v of
        JNull \<Rightarrow> Inl (TypeError ''Cannot read properties of null'')
      | JObject fs \<Rightarrow> Inr (map_of fs nm)
      | _ \<Rightarrow> Inr None)"

text \<open>The decimal numeral of an index, the key of an element of an array or of a
  character of a string.\<close>

function decimal :: "nat \<Rightarrow> string" where
  "decimal n =
     (if n < 10 then [char_of (48 + n)] else decimal (n div 10) @ [char_of (48 + n mod 10)])"
  by pat_completeness auto
termination
  by (relation "measure id") auto

fun indexed :: "nat \<Rightarrow> json list \<Rightarrow> (string \<times> json) list" where
  "indexed i [] = []"
| "indexed i (x # xs) = (decimal i, x) # indexed (Suc i) xs"

text \<open>\<^verbatim>\<open>{ ...v }\<close>: the own enumerable properties of the value; none for \<^verbatim>\<open>undefined\<close>,
  \<^verbatim>\<open>null\<close>, a boolean and a number.\<close>

definition spread :: "json option \<Rightarrow> (string \<times> json) list" where
  "spread v =
     (case v of
        Some (JObject fs) \<Rightarrow> fs
      | Some (JArray xs) \<Rightarrow> indexed 0 xs
      | Some (JString s) \<Rightarrow> indexed 0 (map (\<lambda>c. JString [c]) s)
      | _ \<Rightarrow> [])"

text \<open>\<^verbatim>\<open>[ ...v ]\<close>: the elements of an array, the characters of a string; any other value
  is not iterable.\<close>

definition iterate :: "json option \<Rightarrow> js_error + json list" where
  "iterate v =
     (case v of
        Some (JArray xs) \<Rightarrow> Inr xs
      | Some (JString s) \<Rightarrow> Inr (map (\<lambda>c. JString [c]) s)
      | _ \<Rightarrow> Inl (TypeError ''not iterable''))"

text \<open>The loop that extends the snapshot, the same in \<^verbatim>\<open>update\<close> and \<^verbatim>\<open>addProfiles\<close>:
  a key for which \<^verbatim>\<open>key in snapshot\<close> is false gets the value of the environment, or
  \<^verbatim>\<open>null\<close>.\<close>

definition captureSnapshot ::
  "(string \<rightharpoonup> string) \<Rightarrow> (string \<times> json) list \<Rightarrow> string list \<Rightarrow> (string \<times> json) list" where
  "captureSnapshot env snap keys =
     foldl (\<lambda>s key.
              if \<not> has_property s key
              then assign key (case env key of Some v \<Rightarrow> JString v | None \<Rightarrow> JNull) s
              else s)
       snap keys"

definition update ::
  "string list \<Rightarrow> (string \<times> EnvVariable) list \<Rightarrow> (string \<rightharpoonup> string) \<Rightarrow> string
     \<Rightarrow> state_file option \<Rightarrow> js_error + (json \<times> state_file option)" where
  "update profs vars env now statePath =
     (case load statePath now of
        Inl e \<Rightarrow> Inl e
      | Inr currentState \<Rightarrow>
          (case member currentState ''snapshot'' of
             Inl e \<Rightarrow> Inl e
           | Inr snap0 \<Rightarrow>
               (let snap = captureSnapshot env (spread snap0) (map fst vars);
                    newState = state_object (map JString profs)
                                 (map (\<lambda>(k, e). (k, env_json e)) vars) snap now
                in Inr (newState, save newState))))"

text \<open>In \<^verbatim>\<open>{ ...currentState.variables, ...newVariables }\<close> the properties are defined, not
  assigned, so every key of \<^verbatim>\<open>newVariables\<close> becomes an own property.\<close>

definition addProfiles ::
  "string list \<Rightarrow> (string \<times> EnvVariable) list \<Rightarrow> (string \<rightharpoonup> string) \<Rightarrow> string
     \<Rightarrow> state_file option \<Rightarrow> js_error + (json \<times> state_file option)" where
  "addProfiles profilesToAdd newVariables env now statePath =
     (case load statePath now of
        Inl e \<Rightarrow> Inl e
      | Inr currentState \<Rightarrow>
          (case member currentState ''active_profiles'' of
             Inl e \<Rightarrow> Inl e
           | Inr active \<Rightarrow>
               (case iterate active of
                  Inl e \<Rightarrow> Inl e
                | Inr profs0 \<Rightarrow>
                    (case member currentState ''snapshot'' of
                       Inl e \<Rightarrow> Inl e
                     | Inr snap0 \<Rightarrow>
                         (case member currentState ''variables'' of
                            Inl e \<Rightarrow> Inl e
                          | Inr vars0 \<Rightarrow>
                              (let profs = foldl (\<lambda>ps p. if JString p \<in> set ps then ps
                                                          else ps @ [JString p])
                                             profs0 profilesToAdd;
                                   snap = captureSnapshot env (spread snap0)
                                            (map fst newVariables);
                                   vars = foldl (\<lambda>acc (k, e). AList.update k (env_json e) acc)
                                            (spread vars0) newVariables;
                                   newState = state_object profs vars snap now
                               in Inr (newState, save newState)))))))"

text \<open>A call of one of the two methods, with the environment and the time at which it
  is made, and a sequence of such calls on the state file.\<close>

datatype call =
  Update "string list" "(string \<times> EnvVariable) list"
| AddProfiles "string list" "(string \<times> EnvVariable) list"

fun run_call ::
  "call \<Rightarrow> (string \<rightharpoonup> string) \<Rightarrow> string \<Rightarrow> state_file option
     \<Rightarrow> js_error + (json \<times> state_file option)" where
  "run_call (Update profs vars) env now f = update profs vars env now f"
| "run_call (AddProfiles profs vars) env now f = addProfiles profs vars env now f"

fun run_calls ::
  "(call \<times> (string \<rightharpoonup> string) \<times> string) list \<Rightarrow> state_file option
     \<Rightarrow> js_error + state_file option" where
  "run_calls [] f = Inr f"
| "run_calls ((c, env, now) # cs) f =
     (case run_call c env now f of Inl e \<Rightarrow> Inl e | Inr (st, f') \<Rightarrow> run_calls cs f')"

section \<open>ShellAdapter and \<^verbatim>\<open>sanitizeForShell\<close> (src/utils.ts)\<close>

datatype ShellType = Bash | Zsh | Fish | Unknown

text \<open>\<^verbatim>\<open>value.replace(/'/g, "'\\''")\<close>: every single quote becomes the four characters
  quote, backslash, quote, quote.\<close>

definition sanitizeForShell :: "string \<Rightarrow> string" where
  "sanitizeForShell v =
     concat (map (\<lambda>c. if c = squote then [squote, bslash, squote, squote] else [c]) v)"

definition generateExport :: "ShellType \<Rightarrow> string \<Rightarrow> string \<Rightarrow> string" where
  "generateExport shell key v =
     (let sanitized = sanitizeForShell v in
      case shell of
        Fish \<Rightarrow> ''set -gx '' @ key @ '' '' @ [squote] @ sanitized @ [squote]
      | _ \<Rightarrow> ''export '' @ key @ ''='' @ [squote] @ sanitized @ [squote])"

text \<open>\<^verbatim>\<open>lines.join('\n')\<close>\<close>

fun join_lines :: "string list \<Rightarrow> string" where
  "join_lines [] = []"
| "join_lines [l] = l"
| "join_lines (l # ls) = l @ newline # join_lines ls"

text \<open>The two wrappers, line by line: the text of the template literal after
  \<^verbatim>\<open>trim()\<close>.\<close>

definition bashZshWrapperLines :: "string list" where
  \<open>bashZshWrapperLines =
    [''# envize shell function wrapper'',
     ''envize() {'',
     ''  case "$1" in'',
     ''    use|add|remove|reset)'',
     ''      local output'',
     ''      output="$(command envize "$@" --emit-shell 2>/dev/null)"'',
     ''      if [ $? -eq 0 ]; then'',
     ''        eval "$output"'',
     ''        command envize "$@" --emit-human 1>&2'',
     ''      else'',
     ''        command envize "$@" 1>&2'',
     ''      fi'',
     ''      ;;'',
     ''    *)'',
     ''      command envize "$@"'',
     ''      ;;'',
     ''  esac'',
     ''}'',
     [],
     ''# Source persisted env vars if they exist'',
     ''if [ -f "$HOME/.envize/active.sh" ]; then'',
     ''  source "$HOME/.envize/active.sh"'',
     ''fi'']\<close>

definition fishWrapperLines :: "string list" where
  \<open>fishWrapperLines =
    [''# envize shell function wrapper'',
     ''function envize'',
     ''  switch $argv[1]'',
     ''    case use add remove reset'',
     ''      set -l output (command envize $argv --emit-shell 2>/dev/null)'',
     ''      if test $status -eq 0'',
     ''        eval $output'',
     ''        command envize $argv --emit-human 1>&2'',
     ''      else'',
     ''        command envize $argv 1>&2'',
     ''      end'',
     ''    case '' @ [squote] @ ''*'' @ [squote],
     ''      command envize $argv'',
     ''  end'',
     ''end'',
     [],
     ''# Source persisted env vars if they exist'',
     ''if test -f "$HOME/.envize/active.fish"'',
     ''  source "$HOME/.envize/active.fish"'',
     ''end'']\<close>

definition getBashZshWrapper :: string where
  "getBashZshWrapper = join_lines bashZshWrapperLines"

definition getFishWrapper :: string where
  "getFishWrapper = join_lines fishWrapperLines"

definition getShellWrapper :: "ShellType \<Rightarrow> string" where
  "getShellWrapper shell = (case shell of Fish \<Rightarrow> getFishWrapper | _ \<Rightarrow> getBashZshWrapper)"

definition getMarkerStart :: string where
  "getMarkerStart = ''# >>> envize initialize >>>''"

definition getMarkerEnd :: string where
  "getMarkerEnd = ''# <<< envize initialize <<<''"

definition getFullWrapperBlock :: "ShellType \<Rightarrow> string" where
  "getFullWrapperBlock shell =
     getMarkerStart @ [newline] @ getShellWrapper shell @ [newline] @ getMarkerEnd"

definition isWrapperInstalled :: "string \<Rightarrow> bool" where
  "isWrapperInstalled content = includes_str content getMarkerStart"

text \<open>\<^verbatim>\<open>s.replace(/\n+$/, '')\<close> and \<^verbatim>\<open>s.replace(/^\n+/, '')\<close>: the newlines at the end,
  and at the beginning, of the whole string are removed.\<close>

definition stripTrailingNewlines :: "string \<Rightarrow> string" where
  "stripTrailingNewlines s = rev (dropWhile (\<lambda>c. c = newline) (rev s))"

definition stripLeadingNewlines :: "string \<Rightarrow> string" where
  "stripLeadingNewlines s = dropWhile (\<lambda>c. c = newline) s"

definition removeWrapper :: "string \<Rightarrow> string" where
  "removeWrapper content =
     (case indexOf content getMarkerStart of
        None \<Rightarrow> content
      | Some startIndex \<Rightarrow>
          (case indexOf content getMarkerEnd of
             None \<Rightarrow> content
           | Some endIndex \<Rightarrow>
               (let before = stripTrailingNewlines (take startIndex content);
                    after = stripLeadingNewlines (drop (endIndex + length getMarkerEnd) content)
                in before @ (if before \<noteq> [] \<and> after \<noteq> [] then [newline, newline] else [])
                     @ after)))"

definition addWrapper :: "ShellType \<Rightarrow> string \<Rightarrow> string" where
  "addWrapper shell content =
     (let cleaned = removeWrapper content;
          separator = (if endsWith cleaned [newline] then [newline] else [newline, newline])
      in cleaned @ separator @ getFullWrapperBlock shell @ [newline])"

text \<open>The number of positions of \<open>s\<close> at which \<open>pat\<close> occurs.\<close>

fun occurrences :: "string \<Rightarrow> string \<Rightarrow> nat" where
  "occurrences [] pat = (if pat = [] then 1 else 0)"
| "occurrences (c # cs) pat = (if prefix pat (c # cs) then 1 else 0) + occurrences cs pat"

section \<open>Vocabulary of the specification\<close>

text \<open>The profiles of a list that set a key, in the order of the list.\<close>

definition sets_key :: "Profile \<Rightarrow> string \<Rightarrow> bool" where
  "sets_key p k = (map_of (variables p) k \<noteq> None)"

definition setters :: "string \<Rightarrow> Profile list \<Rightarrow> Profile list" where
  "setters k ps = filter (\<lambda>p. sets_key p k) ps"

text \<open>A name loads when \<open>loadProfile\<close> returns a profile for it: its file exists in one of
  the directories and the file found first can be read.\<close>

definition loads :: "ProfileStore \<Rightarrow> string \<Rightarrow> bool" where
  "loads store n = (case loadProfile store n of Inr (Some p) \<Rightarrow> True | _ \<Rightarrow> False)"

text \<open>A store for the scenarios of the specification: two global and two local
  profiles, and a global profile file that cannot be read.\<close>

definition scenario_store :: ProfileStore where
  "scenario_store =
     \<lparr>globalDir = [''p1'' \<mapsto> ProfileText ''KEY1=a'',
                    ''p2'' \<mapsto> ProfileText (''KEY1=b'' @ [newline] @ ''KEY2=c''),
                    ''locked'' \<mapsto> NoAccess ''EACCES: permission denied''],
      localDir = [''s1'' \<mapsto> ProfileText (''ONLY1=x'' @ [newline] @ ''SHARED=from1''),
                   ''s2'' \<mapsto> ProfileText ''SHARED=from2'']\<rparr>"

text \<open>The members \<^verbatim>\<open>variables\<close> and \<^verbatim>\<open>snapshot\<close> of the state that a state file holds
  (none when the file holds no state), and the keys of the variables that a call passes.\<close>

definition stored :: "state_file option \<Rightarrow> json" where
  "stored f = (case f of Some (Readable (JsonText v)) \<Rightarrow> v | _ \<Rightarrow> getEmptyState [])"

definition members :: "json \<Rightarrow> string \<Rightarrow> (string \<times> json) list" where
  "members v nm =
     (case v of
        JObject fs \<Rightarrow> (case map_of fs nm of Some (JObject ms) \<Rightarrow> ms | _ \<Rightarrow> [])
      | _ \<Rightarrow> [])"

definition call_keys :: "call \<Rightarrow> string list" where
  "call_keys c =
     (case c of Update profs vars \<Rightarrow> map fst vars | AddProfiles profs vars \<Rightarrow> map fst vars)"

text \<open>The parsing of a profile body in the words of the specification: blank lines and
  lines whose trimmed form starts with \<^verbatim>\<open>#\<close> are ignored, lines without \<^verbatim>\<open>=\<close> are skipped,
  every other line is split at the first \<^verbatim>\<open>=\<close> into a trimmed key and a trimmed value,
  entries with an empty key are dropped, and one pair of matching quotes around the value
  is stripped.\<close>

definition spec_split_line :: "string \<Rightarrow> (string \<times> string) option" where
  "spec_split_line line =
     (let t = trim line in
      if t = [] \<or> hd t = CHR ''#'' then None
      else if CHR ''='' \<notin> set t then None
      else (let key = trim (takeWhile (\<lambda>c. c \<noteq> CHR ''='') t);
                v = trim (tl (dropWhile (\<lambda>c. c \<noteq> CHR ''='') t))
            in if key = [] then None else Some (key, v)))"

definition spec_strip_quotes :: "string \<Rightarrow> string" where
  "spec_strip_quotes v =
     (if 2 \<le> length v \<and> hd v = last v \<and> (hd v = squote \<or> hd v = dquote)
      then butlast (tl v) else v)"

definition spec_parseVariables :: "string \<Rightarrow> (string \<times> string) list" where
  "spec_parseVariables content =
     foldl (\<lambda>vars line.
              (case spec_split_line line of
                 None \<Rightarrow> vars
               | Some (k, v) \<Rightarrow> AList.update k (spec_strip_quotes v) vars))
       [] (split_on newline content)"

subsection \<open>Shell quoting\<close>

text \<open>
  The value that a shell gives to a word made of single-quoted parts and backslash
  escapes; the flag tells whether a quote is open. \<open>None\<close> stands for a word whose
  quotes are not balanced, or that holds an unquoted character, which the shell would
  interpret. In a POSIX shell (bash, zsh) everything up to the next quote is literal
  inside single quotes, and a backslash outside quotes makes the next character literal.
\<close>

fun posix_word :: "bool \<Rightarrow> string \<Rightarrow> string option" where
  "posix_word inq [] = (if inq then None else Some [])"
| "posix_word inq (c # cs) =
     (if inq then
        (if c = squote then posix_word False cs
         else map_option ((#) c) (posix_word True cs))
      else if c = squote then posix_word True cs
      else if c = bslash then
        (case cs of
           [] \<Rightarrow> None
         | d # ds \<Rightarrow> if d = newline then None else map_option ((#) d) (posix_word False ds))
      else None)"

text \<open>
  In fish a backslash inside single quotes escapes a following single quote or
  backslash, and is literal before any other character.
\<close>

fun fish_word :: "bool \<Rightarrow> string \<Rightarrow> string option" where
  "fish_word inq [] = (if inq then None else Some [])"
| "fish_word inq (c # cs) =
     (if inq then
        (if c = squote then fish_word False cs
         else if c = bslash then
           (case cs of
              [] \<Rightarrow> None
            | d # ds \<Rightarrow>
                if d = squote \<or> d = bslash then map_option ((#) d) (fish_word True ds)
                else map_option ((#) c) (fish_word True cs))
         else map_option ((#) c) (fish_word True cs))
      else if c = squote then fish_word True cs
      else if c = bslash then
        (case cs of
           [] \<Rightarrow> None
         | d # ds \<Rightarrow>
             if d = squote \<or> d = bslash then map_option ((#) d) (fish_word False ds)
             else None)
      else None)"

definition name_char :: "char \<Rightarrow> bool" where
  "name_char c =
     (c \<in> set (''abcdefghijklmnopqrstuvwxyzABCDEFGHIJKLMNOPQRSTUVWXYZ0123456789_''))"

definition valid_name :: "string \<Rightarrow> bool" where
  "valid_name key = (key \<noteq> [] \<and> list_all name_char key)"

text \<open>The assignment that the statement \<^verbatim>\<open>export KEY=WORD\<close> makes in bash and zsh, and the
  statement \<^verbatim>\<open>set -gx KEY WORD\<close> in fish.\<close>

definition eval_export :: "string \<Rightarrow> (string \<times> string) option" where
  "eval_export stmt =
     (if prefix ''export '' stmt then
        (let rest = drop 7 stmt;
             key = takeWhile (\<lambda>c. c \<noteq> CHR ''='') rest;
             word = dropWhile (\<lambda>c. c \<noteq> CHR ''='') rest
         in if valid_name key \<and> word \<noteq> []
            then map_option (Pair key) (posix_word False (tl word)) else None)
      else None)"

definition eval_set_gx :: "string \<Rightarrow> (string \<times> string) option" where
  "eval_set_gx stmt =
     (if prefix ''set -gx '' stmt then
        (let rest = drop 8 stmt;
             key = takeWhile (\<lambda>c. c \<noteq> CHR '' '') rest;
             word = dropWhile (\<lambda>c. c \<noteq> CHR '' '') rest
         in if valid_name key \<and> word \<noteq> []
            then map_option (Pair key) (fish_word False (tl word)) else None)
      else None)"

definition shell_eval :: "ShellType \<Rightarrow> string \<Rightarrow> (string \<times> string) option" where
  "shell_eval shell stmt = (case shell of Fish \<Rightarrow> eval_set_gx stmt | _ \<Rightarrow> eval_export stmt)"

section \<open>The merge of profiles\<close>


lemma mergeEntry_snd:
  "map_of (snd (mergeEntry n st e)) k =
     (if k = fst e then Some ((case map_of (snd st) k of Some s \<Rightarrow> s | None \<Rightarrow> []) @ [n])
      else map_of (snd st) k)"
  by (cases st; cases e) (simp add: mergeEntry_def update_conv')

lemma mergeEntry_distinct:
  "distinct (map fst (snd st)) \<Longrightarrow> distinct (map fst (snd (mergeEntry n st e)))"
  by (cases st; cases e) (simp add: mergeEntry_def distinct_update)


lemma merge_entries_snd:
  "distinct (map fst es) \<Longrightarrow>
   map_of (snd (foldl (mergeEntry n) st es)) k =
     (if map_of es k \<noteq> None
      then Some ((case map_of (snd st) k of Some s \<Rightarrow> s | None \<Rightarrow> []) @ [n])
      else map_of (snd st) k)"
proof (induction es arbitrary: st)
  case Nil
  then show ?case by simp
next
  case (Cons e es)
  have none: "map_of es (fst e) = None" using Cons.prems
    by (simp add: map_of_eq_None_iff)
  from Cons.prems have "distinct (map fst es)" by simp
  from Cons.IH [OF this] none show ?case
    by (cases e) (auto simp: mergeEntry_snd split: option.splits)
qed

lemma merge_entries_distinct:
  "distinct (map fst (snd st)) \<Longrightarrow> distinct (map fst (snd (foldl (mergeEntry n) st es)))"
  by (induction es arbitrary: st) (simp_all add: mergeEntry_distinct)


lemma mergeProfiles_snoc: "mergeProfiles st (ps @ [p]) = mergeProfile p (mergeProfiles st ps)"
  by (simp add: mergeProfiles_def)

lemma setters_snoc: "setters k (ps @ [p]) = setters k ps @ (if sets_key p k then [p] else [])"
  by (simp add: setters_def)

lemma mergeProfiles_distinct:
  "distinct (map fst (snd st)) \<Longrightarrow> distinct (map fst (snd (mergeProfiles st ps)))"
  by (induction ps rule: rev_induct)
     (simp_all add: mergeProfiles_def mergeProfile_def merge_entries_distinct)

lemma mergeProfiles_snd:
  "\<forall>p \<in> set ps. distinct (map fst (variables p)) \<Longrightarrow>
   map_of (snd (mergeProfiles st ps)) k =
     (if setters k ps = [] then map_of (snd st) k
      else Some ((case map_of (snd st) k of Some s \<Rightarrow> s | None \<Rightarrow> []) @ map name (setters k ps)))"
proof (induction ps rule: rev_induct)
  case Nil
  then show ?case by (simp add: mergeProfiles_def setters_def)
next
  case (snoc p ps)
  then show ?case
    by (simp add: mergeProfiles_snoc mergeProfile_def merge_entries_snd setters_snoc sets_key_def)
qed


lemma detectConflicts_filter:
  "distinct (map fst ss) \<Longrightarrow>
   filter (\<lambda>c. variable c = k) (detectConflicts ss) =
     (case map_of ss k of
        Some s \<Rightarrow> if length s > 1 then [\<lparr>variable = k, profiles = s, winner = last s\<rparr>] else []
      | None \<Rightarrow> [])"
proof (induction ss)
  case Nil
  then show ?case by (simp add: detectConflicts_def)
next
  case (Cons a ss)
  have none: "map_of ss (fst a) = None" using Cons.prems
    by (simp add: map_of_eq_None_iff)
  from Cons.prems have "distinct (map fst ss)" by simp
  from Cons.IH [OF this] none show ?case
    by (cases a) (auto simp: detectConflicts_def split: option.splits)
qed


lemma assign_map_of:
  "map_of (assign k v al) k' =
     (if k = ''__proto__'' \<and> map_of al k = None then map_of al k'
      else if k' = k then Some v else map_of al k')"
  by (auto simp: assign_def update_conv')

lemma assign_distinct: "distinct (map fst al) \<Longrightarrow> distinct (map fst (assign k v al))"
  by (simp add: assign_def distinct_update)

lemma parseVariablesLine_distinct:
  "distinct (map fst vars) \<Longrightarrow> distinct (map fst (parseVariablesLine line vars))"
  by (simp add: parseVariablesLine_def Let_def assign_distinct split: option.splits)

lemma parse_lines_distinct:
  "distinct (map fst vars) \<Longrightarrow>
   distinct (map fst (foldl (\<lambda>vars line. parseVariablesLine line vars) vars ls))"
  by (induction ls arbitrary: vars) (simp_all add: parseVariablesLine_distinct)

lemma parseVariables_distinct: "distinct (map fst (parseVariables content))"
  by (simp add: parseVariables_def parse_lines_distinct)

lemma loadProfile_Some:
  "loadProfile store n = Inr (Some p) \<Longrightarrow> name p = n \<and> distinct (map fst (variables p))"
  by (auto simp: loadProfile_def loadProfileFromPath_def parseVariables_distinct
      split: option.splits profile_file.splits)

lemma loadProfile_None:
  "loadProfile store n = Inr None \<longleftrightarrow> localDir store n = None \<and> globalDir store n = None"
  by (simp add: loadProfile_def loadProfileFromPath_def split: option.splits profile_file.splits)

lemma resolve_loop_loaded:
  "map (loadProfile store) names = map (\<lambda>p. Inr (Some p)) ps \<Longrightarrow>
   resolve_loop store names st = Inr (mergeProfiles st ps)"
proof (induction names arbitrary: st ps)
  case Nil
  then show ?case by (simp add: mergeProfiles_def)
next
  case (Cons n names)
  from Cons.prems obtain p qs where p: "loadProfile store n = Inr (Some p)"
    and qs: "map (loadProfile store) names = map (\<lambda>p. Inr (Some p)) qs" and ps: "ps = p # qs"
    by (cases ps) auto
  from Cons.IH [OF qs, of "mergeProfile p st"] p ps show ?case
    by (simp add: mergeProfiles_def)
qed

text \<open>A name loads when \<open>loadProfile\<close> returns a profile for it.\<close>

lemma resolve_loop_first_failure:
  "find (\<lambda>n. \<not> loads store n) names = Some n \<Longrightarrow>
   resolve_loop store names st =
     (case loadProfile store n of
        Inl e \<Rightarrow> Inl e
      | Inr _ \<Rightarrow> Inl (Error (''Profile not found: '' @ n)))"
proof (induction names arbitrary: st)
  case Nil
  then show ?case by simp
next
  case (Cons a names)
  show ?case
  proof (cases "loads store a")
    case True
    then obtain p where "loadProfile store a = Inr (Some p)"
      by (auto simp: loads_def split: sum.splits option.splits)
    with Cons True show ?thesis by simp
  next
    case False
    with Cons.prems have "n = a" by simp
    with False show ?thesis
      by (auto simp: loads_def split: sum.splits option.splits)
  qed
qed

lemma all_loaded:
  "find (\<lambda>n. \<not> loads store n) names = None \<Longrightarrow>
   \<exists>ps. map (loadProfile store) names = map (\<lambda>p. Inr (Some p)) ps"
proof (induction names)
  case Nil
  then show ?case by simp
next
  case (Cons a names)
  then obtain ps where ps: "map (loadProfile store) names = map (\<lambda>p. Inr (Some p)) ps"
    by (auto split: if_splits)
  from Cons.prems obtain p where "loadProfile store a = Inr (Some p)"
    by (auto simp: loads_def split: if_splits sum.splits option.splits)
  with ps have "map (loadProfile store) (a # names) = map (\<lambda>p. Inr (Some p)) (p # ps)"
    by simp
  then show ?case by blast
qed


lemma resolve_loaded:
  "map (loadProfile store) names = map (\<lambda>p. Inr (Some p)) ps \<Longrightarrow>
   resolve store names = Inr (resolveProfiles ps)"
  by (simp add: resolve_def resolveProfiles_def resolve_loop_loaded)


lemma resolveProfiles_conflicts:
  assumes "\<forall>p \<in> set ps. distinct (map fst (variables p))"
  shows "filter (\<lambda>c. variable c = k) (conflicts (resolveProfiles ps)) =
     (if length (setters k ps) > 1
      then [\<lparr>variable = k, profiles = map name (setters k ps),
             winner = name (last (setters k ps))\<rparr>]
      else [])"
proof -
  have d: "distinct (map fst (snd (mergeProfiles ([], []) ps)))"
    by (rule mergeProfiles_distinct) simp
  show ?thesis
    by (simp add: resolveProfiles_def finish_def detectConflicts_filter [OF d]
        mergeProfiles_snd [OF assms] last_map)
qed


lemma scenario_p2:
  "loadProfile scenario_store ''p2'' =
     Inr (Some \<lparr>name = ''p2'', isLocal = False, variables = [(''KEY1'', ''b''), (''KEY2'', ''c'')]\<rparr>)"
  by (simp add: scenario_store_def loadProfile_def loadProfileFromPath_def parseVariables_def
      parseVariablesLine_def trim_def isSpace_def startsWith_def endsWith_def newline_def
      squote_def dquote_def assign_def)

lemma scenario_s1:
  "loadProfile scenario_store ''s1'' =
     Inr (Some \<lparr>name = ''s1'', isLocal = True,
           variables = [(''ONLY1'', ''x''), (''SHARED'', ''from1'')]\<rparr>)"
  by (simp add: scenario_store_def loadProfile_def loadProfileFromPath_def parseVariables_def
      parseVariablesLine_def trim_def isSpace_def startsWith_def endsWith_def newline_def
      squote_def dquote_def assign_def)

lemma scenario_s2:
  "loadProfile scenario_store ''s2'' =
     Inr (Some \<lparr>name = ''s2'', isLocal = True, variables = [(''SHARED'', ''from2'')]\<rparr>)"
  by (simp add: scenario_store_def loadProfile_def loadProfileFromPath_def parseVariables_def
      parseVariablesLine_def trim_def isSpace_def startsWith_def endsWith_def newline_def
      squote_def dquote_def assign_def)

subsection \<open>Last profile wins\<close>



subsection \<open>A name listed twice\<close>

text \<open>
  C10. For a profile that loads, \<open>resolve\<close> on its name listed twice succeeds, and for every
  variable of the profile there is exactly one conflict, with the name twice as
  \<open>profiles\<close> and the name as \<open>winner\<close>; with a variable in the profile the list of
  conflicts is not empty.
\<close>

theorem resolve_duplicate_name:
  assumes "loadProfile store n = Inr (Some p)"
  shows "resolve store [n, n] = Inr (resolveProfiles [p, p])
     \<and> (\<forall>k. sets_key p k \<longrightarrow>
           filter (\<lambda>c. variable c = k) (conflicts (resolveProfiles [p, p])) =
             [\<lparr>variable = k, profiles = [n, n], winner = n\<rparr>])
     \<and> (variables p \<noteq> [] \<longrightarrow> conflicts (resolveProfiles [p, p]) \<noteq> [])"
proof -
  from loadProfile_Some [OF assms] have nm: "name p = n"
    and d: "distinct (map fst (variables p))" by simp_all
  have wf: "\<forall>x \<in> set [p, p]. distinct (map fst (variables x))" using d by simp
  have confl: "sets_key p k \<Longrightarrow>
      filter (\<lambda>c. variable c = k) (conflicts (resolveProfiles [p, p])) =
        [\<lparr>variable = k, profiles = [n, n], winner = n\<rparr>]" for k
    using resolveProfiles_conflicts [OF wf, of k] nm by (simp add: setters_def)
  have nonempty: "conflicts (resolveProfiles [p, p]) \<noteq> []" if "variables p \<noteq> []"
  proof -
    from that obtain k v rest where "variables p = (k, v) # rest" by (cases "variables p") auto
    then have "sets_key p k" by (simp add: sets_key_def)
    from confl [OF this] show ?thesis by auto
  qed
  have "resolve store [n, n] = Inr (resolveProfiles [p, p])"
    by (rule resolve_loaded) (simp add: assms)
  with confl nonempty show ?thesis by blast
qed

theorem resolve_duplicate_name_witness:
  "resolve scenario_store [''p2'', ''p2''] =
     Inr \<lparr>resolved_variables =
             [(''KEY1'', \<lparr>var_value = ''b'', var_source = ''p2''\<rparr>),
              (''KEY2'', \<lparr>var_value = ''c'', var_source = ''p2''\<rparr>)],
          conflicts =
             [\<lparr>variable = ''KEY1'', profiles = [''p2'', ''p2''], winner = ''p2''\<rparr>,
              \<lparr>variable = ''KEY2'', profiles = [''p2'', ''p2''], winner = ''p2''\<rparr>]\<rparr>"
proof -
  let ?p2 = "\<lparr>name = ''p2'', isLocal = False, variables = [(''KEY1'', ''b''), (''KEY2'', ''c'')]\<rparr>"
  have val: "resolveProfiles [?p2, ?p2] =
     \<lparr>resolved_variables =
             [(''KEY1'', \<lparr>var_value = ''b'', var_source = ''p2''\<rparr>),
              (''KEY2'', \<lparr>var_value = ''c'', var_source = ''p2''\<rparr>)],
          conflicts =
             [\<lparr>variable = ''KEY1'', profiles = [''p2'', ''p2''], winner = ''p2''\<rparr>,
              \<lparr>variable = ''KEY2'', profiles = [''p2'', ''p2''], winner = ''p2''\<rparr>]\<rparr>"
    by (simp add: resolveProfiles_def mergeProfiles_def mergeProfile_def mergeEntry_def finish_def
        detectConflicts_def)
  from resolve_duplicate_name [OF scenario_p2] val show ?thesis by simp
qed

subsection \<open>Missing profiles\<close>

lemma loads_iff:
  "loads store n \<longleftrightarrow>
     (case localDir store n of
        Some f \<Rightarrow> (case f of ProfileText c \<Rightarrow> True | NoAccess m \<Rightarrow> False)
      | None \<Rightarrow>
          (case globalDir store n of
             Some f \<Rightarrow> (case f of ProfileText c \<Rightarrow> True | NoAccess m \<Rightarrow> False)
           | None \<Rightarrow> False))"
  by (simp add: loads_def loadProfile_def loadProfileFromPath_def
      split: option.splits profile_file.splits)

text \<open>
  C5, as amended. \<open>resolve\<close> fails at the first name of the list that does not load and
  gives no resolution: with the error \<^verbatim>\<open>Profile not found\<close> for that name when it has a
  file in neither directory, and with the error of the read when its file exists and
  cannot be read. When every name of the list loads, \<open>resolve\<close> returns a resolution.
\<close>

theorem resolve_fail_fast:
  "(find (\<lambda>n. \<not> loads store n) names = Some n \<longrightarrow>
      resolve store names =
        (case loadProfile store n of
           Inl e \<Rightarrow> Inl e
         | Inr _ \<Rightarrow> Inl (Error (''Profile not found: '' @ n))))
   \<and> (find (\<lambda>n. \<not> loads store n) names = Some n
        \<and> localDir store n = None \<and> globalDir store n = None \<longrightarrow>
      resolve store names = Inl (Error (''Profile not found: '' @ n)))
   \<and> (find (\<lambda>n. \<not> loads store n) names = None \<longrightarrow> (\<exists>r. resolve store names = Inr r))"
proof -
  have failure: "resolve store names =
        (case loadProfile store n of
           Inl e \<Rightarrow> Inl e
         | Inr _ \<Rightarrow> Inl (Error (''Profile not found: '' @ n)))"
    if "find (\<lambda>n. \<not> loads store n) names = Some n"
    by (simp add: resolve_def resolve_loop_first_failure [OF that] split: sum.splits)
  have missing: "resolve store names = Inl (Error (''Profile not found: '' @ n))"
    if "find (\<lambda>n. \<not> loads store n) names = Some n"
      and "localDir store n = None" and "globalDir store n = None"
  proof -
    from that(2,3) have "loadProfile store n = Inr None" by (simp add: loadProfile_None)
    with failure [OF that(1)] show ?thesis by simp
  qed
  have loaded: "\<exists>r. resolve store names = Inr r"
    if "find (\<lambda>n. \<not> loads store n) names = None"
    using all_loaded [OF that] by (auto simp: resolve_loaded)
  from failure missing loaded show ?thesis by blast
qed

lemma scenario_loads:
  "loads scenario_store ''p1''" "loads scenario_store ''p2''" "loads scenario_store ''s1''"
  "\<not> loads scenario_store ''nope''" "\<not> loads scenario_store ''locked''"
  by (simp_all add: loads_iff scenario_store_def)

lemma scenario_locked:
  "loadProfile scenario_store ''locked'' = Inl (Error ''EACCES: permission denied'')"
  by (simp add: loadProfile_def loadProfileFromPath_def scenario_store_def)

theorem resolve_fail_fast_witness:
  "resolve scenario_store [''p1'', ''nope'', ''p2'', ''gone''] =
       Inl (Error ''Profile not found: nope'')
   \<and> resolve scenario_store [''p1'', ''locked'', ''nope''] =
       Inl (Error ''EACCES: permission denied'')
   \<and> (\<exists>r. resolve scenario_store [''s1'', ''p2''] = Inr r)"
proof -
  have a: "find (\<lambda>n. \<not> loads scenario_store n) [''p1'', ''nope'', ''p2'', ''gone''] = Some ''nope''"
    by (simp add: scenario_loads)
  have a': "localDir scenario_store ''nope'' = None" "globalDir scenario_store ''nope'' = None"
    by (simp_all add: scenario_store_def)
  have b: "find (\<lambda>n. \<not> loads scenario_store n) [''p1'', ''locked'', ''nope''] = Some ''locked''"
    by (simp add: scenario_loads)
  have c: "find (\<lambda>n. \<not> loads scenario_store n) [''s1'', ''p2''] = None"
    by (simp add: scenario_loads)
  note t1 = resolve_fail_fast [of scenario_store "[''p1'', ''nope'', ''p2'', ''gone'']" "''nope''"]
  note t2 = resolve_fail_fast [of scenario_store "[''p1'', ''locked'', ''nope'']" "''locked''"]
  note t3 = resolve_fail_fast [of scenario_store "[''s1'', ''p2'']" "''nope''"]
  from t1 [THEN conjunct2, THEN conjunct1] a a'
  have r1: "resolve scenario_store [''p1'', ''nope'', ''p2'', ''gone''] =
       Inl (Error ''Profile not found: nope'')" by simp
  from t2 [THEN conjunct1] b
  have r2: "resolve scenario_store [''p1'', ''locked'', ''nope''] =
       Inl (Error ''EACCES: permission denied'')" by (simp add: scenario_locked)
  from t3 [THEN conjunct2, THEN conjunct2] c
  have r3: "\<exists>r. resolve scenario_store [''s1'', ''p2''] = Inr r" by simp
  from r1 r2 r3 show ?thesis by (intro conjI)
qed

text \<open>
  As stated the claim fails: in the list of \<open>locked\<close>, whose file cannot be read, and
  \<open>nope\<close>, which has a file in neither directory, \<open>resolve\<close> fails with the error of the
  read, and not with \<^verbatim>\<open>Profile not found\<close> for \<open>nope\<close>.
\<close>

theorem resolve_unreadable_counterexample:
  "localDir scenario_store ''nope'' = None \<and> globalDir scenario_store ''nope'' = None
   \<and> resolve scenario_store [''locked'', ''nope''] = Inl (Error ''EACCES: permission denied'')
   \<and> resolve scenario_store [''locked'', ''nope''] \<noteq> Inl (Error ''Profile not found: nope'')"
proof -
  have absent: "localDir scenario_store ''nope'' = None" "globalDir scenario_store ''nope'' = None"
    by (simp_all add: scenario_store_def)
  have r: "resolve scenario_store [''locked'', ''nope''] = Inl (Error ''EACCES: permission denied'')"
    by (simp add: resolve_def scenario_locked)
  from absent r show ?thesis by simp
qed

subsection \<open>\<open>diff\<close>\<close>

lemma changed_iff:
  "changed current key e =
     (case map_of current key of None \<Rightarrow> True | Some c \<Rightarrow> var_value c \<noteq> var_value e)"
  by (simp add: changed_def get_property_def split: option.splits)

lemma toSet_fold:
  assumes "distinct (map fst nxt)" and "k \<noteq> ''__proto__''"
  shows "map_of (foldl (\<lambda>acc (key, envVar).
                 if changed current key envVar then assign key (var_value envVar) acc else acc)
               acc nxt) k =
     (case map_of nxt k of
        None \<Rightarrow> map_of acc k
      | Some e \<Rightarrow> if changed current k e then Some (var_value e) else map_of acc k)"
  using assms(1)
proof (induction nxt arbitrary: acc)
  case Nil
  then show ?case by simp
next
  case (Cons a nxt)
  have none: "map_of nxt (fst a) = None" using Cons.prems by (simp add: map_of_eq_None_iff)
  from Cons.prems have "distinct (map fst nxt)" by simp
  from Cons.IH [OF this] none assms(2) show ?case
    by (cases a) (auto simp: assign_map_of split: option.splits)
qed

lemma toSet_fold_same:
  "\<forall>(key, e) \<in> set xs. \<not> changed current key e \<Longrightarrow>
   foldl (\<lambda>acc (key, envVar).
            if changed current key envVar then assign key (var_value envVar) acc else acc)
     acc xs = acc"
  by (induction xs arbitrary: acc) auto

text \<open>What \<open>diff\<close> computes: \<open>toSet\<close> is as the specification says, for every key but
  \<^verbatim>\<open>__proto__\<close>; \<open>toUnset\<close> leaves out the keys that the next map inherits.\<close>

lemma diff_toSet:
  assumes "distinct (map fst nxt)" and "k \<noteq> ''__proto__''"
  shows "map_of (toSet (diff current nxt)) k =
           (case map_of nxt k of
              None \<Rightarrow> None
            | Some e \<Rightarrow>
                (case map_of current k of
                   None \<Rightarrow> Some (var_value e)
                 | Some c \<Rightarrow> if var_value c \<noteq> var_value e then Some (var_value e) else None))"
proof -
  have "map_of (toSet (diff current nxt)) k =
      (case map_of nxt k of
         None \<Rightarrow> None
       | Some e \<Rightarrow> if changed current k e then Some (var_value e) else None)"
    by (simp add: diff_def toSet_fold [OF assms] split: option.splits)
  then show ?thesis by (simp add: changed_iff split: option.splits)
qed

lemma diff_toUnset:
  "toUnset (diff current nxt) =
     filter (\<lambda>key. key \<notin> fst ` set nxt \<and> key \<notin> set objectPrototypeNames) (map fst current)"
proof -
  have "get_property nxt key = None \<longleftrightarrow>
      key \<notin> fst ` set nxt \<and> key \<notin> set objectPrototypeNames" for key
    by (auto simp: get_property_def map_of_eq_None_iff [symmetric] split: option.splits)
  then show ?thesis by (simp add: diff_def)
qed

lemma diff_same:
  assumes "distinct (map fst a)"
  shows "diff a a = \<lparr>toSet = [], toUnset = []\<rparr>"
proof -
  have same: "\<forall>(key, e) \<in> set a. \<not> changed a key e"
    using assms by (auto simp: changed_iff)
  have "filter (\<lambda>key. key \<notin> fst ` set a \<and> key \<notin> set objectPrototypeNames) (map fst a) = []"
    by (auto simp: filter_empty_conv)
  then show ?thesis
    using diff_toUnset [of a a] by (simp add: diff_def toSet_fold_same [OF same])
qed

text \<open>
  C6. \<open>toSet\<close> is as the claim says, and the difference of a map with itself is empty
  (\<open>diff_toSet\<close>, \<open>diff_same\<close>). For \<open>toUnset\<close> the code tests \<^verbatim>\<open>!next[key]\<close>, which is false
  for every name that the next map inherits from \<^verbatim>\<open>Object.prototype\<close>: the current key
  \<open>constructor\<close>, absent from the next map, is not in \<open>toUnset\<close>, where the key \<open>OLD\<close> is.
\<close>

theorem diff_inherited_key:
  "diff [(''constructor'', \<lparr>var_value = ''x'', var_source = ''p''\<rparr>),
         (''OLD'', \<lparr>var_value = ''y'', var_source = ''p''\<rparr>)] []
     = \<lparr>toSet = [], toUnset = [''OLD'']\<rparr>"
  by (simp add: diff_def get_property_def objectPrototypeNames_def)

subsection \<open>\<open>computeRemoval\<close>\<close>

lemma removalStep_unset:
  "rm_toUnset (removalStep remaining acc e) =
     rm_toUnset acc @ (if get_property remaining (fst e) = None then [fst e] else [])"
  by (simp add: removalStep_def split: option.splits)

lemma removalStep_keep:
  "k \<noteq> ''__proto__'' \<Longrightarrow>
   map_of (toKeep (removalStep remaining acc e)) k =
     (if k = fst e \<and> get_property remaining k \<noteq> None then get_property remaining k
      else map_of (toKeep acc) k)"
  by (auto simp: removalStep_def assign_map_of split: option.splits)

lemma removal_fold_unset:
  "rm_toUnset (foldl (removalStep remaining) acc cur) =
     rm_toUnset acc @ filter (\<lambda>k. get_property remaining k = None) (map fst cur)"
  by (induction cur arbitrary: acc) (simp_all add: removalStep_unset)

lemma removal_fold_keep:
  "k \<noteq> ''__proto__'' \<Longrightarrow>
   map_of (toKeep (foldl (removalStep remaining) acc cur)) k =
     (if k \<in> fst ` set cur \<and> get_property remaining k \<noteq> None then get_property remaining k
      else map_of (toKeep acc) k)"
proof (induction cur arbitrary: acc)
  case Nil
  then show ?case by simp
next
  case (Cons a cur)
  then show ?case
    by (auto simp: removalStep_keep)
qed

text \<open>What \<open>computeRemoval\<close> computes when the remaining names resolve: the current keys
  are partitioned by \<^verbatim>\<open>remaining.variables[key]\<close>, which also finds inherited members.\<close>

lemma computeRemoval_resolved:
  assumes "resolve store names = Inr r"
  shows "\<exists>res. computeRemoval store current names = Inr res
     \<and> rm_toUnset res =
         filter (\<lambda>k. get_property (resolved_variables r) k = None) (map fst current)
     \<and> (\<forall>k. k \<noteq> ''__proto__'' \<longrightarrow>
           map_of (toKeep res) k =
             (if k \<in> fst ` set current then get_property (resolved_variables r) k else None))"
proof -
  have r_nil: "resolve store [] = Inr \<lparr>resolved_variables = [], conflicts = []\<rparr>"
    by (simp add: resolve_def finish_def detectConflicts_def)
  have "(if length names > 0 then map_sum id resolved_variables (resolve store names)
         else Inr []) = Inr (resolved_variables r)"
    using assms r_nil by (cases names) auto
  then show ?thesis
    by (simp add: computeRemoval_def removal_fold_unset removal_fold_keep)
qed

text \<open>
  C4. The current keys are partitioned by the test \<^verbatim>\<open>remaining.variables[key]\<close>, and for a
  key that the fresh resolution has the partition is as the claim says: in scenario 3,
  \<open>SHARED\<close> is kept with the value and the source of \<open>s2\<close>, and \<open>ONLY1\<close> is unset. But the test
  is true for every name that the object inherits from \<^verbatim>\<open>Object.prototype\<close>: with no
  remaining profile, the current key \<open>constructor\<close> is absent from the fresh resolution
  and yet it is kept, with the inherited member as its value, and only \<open>A\<close> is unset.
\<close>

theorem computeRemoval_inherited_key:
  "computeRemoval scenario_store
     [(''constructor'', \<lparr>var_value = ''x'', var_source = ''p1''\<rparr>),
      (''A'', \<lparr>var_value = ''y'', var_source = ''p1''\<rparr>)] []
   = Inr \<lparr>rm_toUnset = [''A''], toKeep = [(''constructor'', Inherited)]\<rparr>
   \<and> computeRemoval scenario_store
     [(''ONLY1'', \<lparr>var_value = ''x'', var_source = ''s1''\<rparr>),
      (''SHARED'', \<lparr>var_value = ''from2'', var_source = ''s2''\<rparr>)] [''s2'']
   = Inr \<lparr>rm_toUnset = [''ONLY1''],
          toKeep = [(''SHARED'', Own \<lparr>var_value = ''from2'', var_source = ''s2''\<rparr>)]\<rparr>"
proof -
  have s2: "resolve scenario_store [''s2''] =
     Inr \<lparr>resolved_variables = [(''SHARED'', \<lparr>var_value = ''from2'', var_source = ''s2''\<rparr>)],
          conflicts = []\<rparr>"
    by (simp add: resolve_def scenario_s2 mergeProfile_def mergeEntry_def finish_def
        detectConflicts_def)
  show ?thesis
    by (simp add: computeRemoval_def s2 removalStep_def get_property_def assign_def
        objectPrototypeNames_def)
qed

section \<open>The state file\<close>

subsection \<open>Loading the state\<close>

lemma load_cases:
  "load f now =
     Inr (case f of Some (Readable (JsonText v)) \<Rightarrow> v | _ \<Rightarrow> getEmptyState now)"
  by (simp add: load_def fileExists_def readFile_def JSON_parse_def try_catch_def
      split: option.splits state_file.splits file_content.splits)

text \<open>
  C7, as amended. Whatever the state file holds, \<open>load\<close> returns a value and throws
  nothing. When the file is absent, cannot be read or holds text that \<^verbatim>\<open>JSON.parse\<close>
  rejects, the value is the empty state, with no active profile, no variable, no snapshot
  entry and the time of the call. Text that \<^verbatim>\<open>JSON.parse\<close> accepts is returned as parsed,
  whether it is state data or not.
\<close>

theorem load_lenient:
  "(\<exists>v. load f now = Inr v)
   \<and> (f = None \<or> f = Some Unreadable \<or> f = Some (Readable Malformed) \<longrightarrow>
        load f now = Inr (getEmptyState now))
   \<and> (\<forall>v. f = Some (Readable (JsonText v)) \<longrightarrow> load f now = Inr v)
   \<and> getEmptyState now =
        JObject [(''active_profiles'', JArray []), (''variables'', JObject []),
                 (''snapshot'', JObject []), (''applied_at'', JString now)]"
  by (auto simp: load_cases getEmptyState_def state_object_def)

theorem load_lenient_witness:
  "load (Some (Readable Malformed)) ''2026-02-10T00:00:00.000Z'' =
     Inr (JObject [(''active_profiles'', JArray []), (''variables'', JObject []),
                   (''snapshot'', JObject []),
                   (''applied_at'', JString ''2026-02-10T00:00:00.000Z'')])
   \<and> load (Some Unreadable) ''2026-02-10T00:00:00.000Z'' =
     Inr (JObject [(''active_profiles'', JArray []), (''variables'', JObject []),
                   (''snapshot'', JObject []),
                   (''applied_at'', JString ''2026-02-10T00:00:00.000Z'')])
   \<and> load None ''2026-02-10T00:00:00.000Z'' =
     Inr (JObject [(''active_profiles'', JArray []), (''variables'', JObject []),
                   (''snapshot'', JObject []),
                   (''applied_at'', JString ''2026-02-10T00:00:00.000Z'')])
   \<and> load (Some (Readable (JsonText (JArray [JNumber 42]))))
         ''2026-02-10T00:00:00.000Z'' = Inr (JArray [JNumber 42])"
  using load_lenient [of "Some (Readable Malformed)" "''2026-02-10T00:00:00.000Z''"]
    load_lenient [of "Some Unreadable" "''2026-02-10T00:00:00.000Z''"]
    load_lenient [of None "''2026-02-10T00:00:00.000Z''"]
    load_lenient [of "Some (Readable (JsonText (JArray [JNumber 42])))"
      "''2026-02-10T00:00:00.000Z''"]
  by simp

text \<open>
  As stated the claim fails on invalid content that is JSON text: for the file that holds
  \<^verbatim>\<open>null\<close>, \<open>load\<close> returns \<^verbatim>\<open>null\<close> and not the empty state.
\<close>

theorem load_null_counterexample:
  "load (Some (Readable (JsonText JNull))) ''2026-02-10T00:00:00.000Z'' = Inr JNull
   \<and> load (Some (Readable (JsonText JNull))) ''2026-02-10T00:00:00.000Z'' \<noteq>
       Inr (getEmptyState ''2026-02-10T00:00:00.000Z'')"
  by (simp add: load_cases getEmptyState_def state_object_def)

lemma update_on_null:
  "update profs vars env now (Some (Readable (JsonText JNull))) =
     Inl (TypeError ''Cannot read properties of null'')"
  by (simp add: update_def load_cases member_def)

subsection \<open>The snapshot\<close>

lemma capture_keeps:
  "map_of snap k = Some v \<Longrightarrow> map_of (captureSnapshot env snap keys) k = Some v"
  unfolding captureSnapshot_def
proof (induction keys arbitrary: snap)
  case Nil
  then show ?case by simp
next
  case (Cons a keys)
  let ?s = "if \<not> has_property snap a
            then assign a (case env a of Some v \<Rightarrow> JString v | None \<Rightarrow> JNull) snap else snap"
  from Cons.prems have "map_of ?s k = Some v"
    by (auto simp: assign_map_of has_property_def get_property_def)
  from Cons.IH [OF this] show ?case by simp
qed

lemma capture_covers:
  assumes "k \<in> set keys" and "k \<notin> set objectPrototypeNames"
  shows "map_of (captureSnapshot env snap keys) k \<noteq> None"
  using assms(1) unfolding captureSnapshot_def
proof (induction keys arbitrary: snap)
  case Nil
  then show ?case by simp
next
  case (Cons a keys)
  let ?s = "if \<not> has_property snap a
            then assign a (case env a of Some v \<Rightarrow> JString v | None \<Rightarrow> JNull) snap else snap"
  show ?case
  proof (cases "k = a")
    case True
    from assms(2) have "k \<noteq> ''__proto__''" by (auto simp: objectPrototypeNames_def)
    with True assms(2) have "map_of ?s k \<noteq> None"
      by (auto simp: assign_map_of has_property_def get_property_def split: option.splits)
    then obtain v where "map_of ?s k = Some v" by auto
    from capture_keeps [OF this, of env keys] show ?thesis
      by (simp add: captureSnapshot_def)
  next
    case False
    with Cons show ?thesis by simp
  qed
qed

lemma assign_all_keys:
  "fst ` set (foldl (\<lambda>acc (k, e). AList.update k (f e) acc) vars new) =
     fst ` set vars \<union> fst ` set new"
proof (induction new arbitrary: vars)
  case Nil
  then show ?case by simp
next
  case (Cons a new)
  obtain k v where a: "a = (k, v)" by (cases a) auto
  show ?case
    unfolding a by (simp add: Cons.IH dom_update)
qed

lemma load_state:
  assumes "stored f = state_object p v s t"
  shows "\<exists>t'. load f now = Inr (state_object p v s t')"
proof (cases "\<exists>j. f = Some (Readable (JsonText j))")
  case True
  with assms show ?thesis by (auto simp: load_cases stored_def)
next
  case False
  then have "stored f = getEmptyState []" "load f now = Inr (getEmptyState now)"
    by (auto simp: load_cases stored_def split: option.splits state_file.splits file_content.splits)
  with assms show ?thesis by (auto simp: getEmptyState_def state_object_def)
qed

lemma stored_save: "stored (save d) = d"
  by (simp add: stored_def save_def)

lemma state_members:
  "member (state_object p v s t) ''active_profiles'' = Inr (Some (JArray p))"
  "member (state_object p v s t) ''variables'' = Inr (Some (JObject v))"
  "member (state_object p v s t) ''snapshot'' = Inr (Some (JObject s))"
  by (simp_all add: member_def state_object_def)

lemma run_call_step:
  assumes "stored f = state_object p v s t"
  shows "\<exists>p' v' s'. run_call c env now f =
            Inr (state_object p' v' s' now, save (state_object p' v' s' now))
     \<and> (\<forall>k x. map_of s k = Some x \<longrightarrow> map_of s' k = Some x)
     \<and> (set (call_keys c) \<inter> set objectPrototypeNames = {} \<longrightarrow>
          fst ` set v \<subseteq> fst ` set s \<longrightarrow> fst ` set v' \<subseteq> fst ` set s')"
proof -
  from load_state [OF assms, of now] obtain t' where
    ld: "load f now = Inr (state_object p v s t')" by blast
  show ?thesis
  proof (cases c)
    case (Update profs vars)
    let ?s' = "captureSnapshot env s (map fst vars)"
    let ?v' = "map (\<lambda>(k, e). (k, env_json e)) vars"
    have run: "run_call c env now f =
        Inr (state_object (map JString profs) ?v' ?s' now,
             save (state_object (map JString profs) ?v' ?s' now))"
      by (simp add: Update update_def ld state_members spread_def Let_def)
    have keys: "fst ` set ?v' = fst ` set vars" by force
    have cov: "fst ` set ?v' \<subseteq> fst ` set ?s'"
      if "set (call_keys c) \<inter> set objectPrototypeNames = {}"
    proof
      fix k assume "k \<in> fst ` set ?v'"
      with keys have k: "k \<in> set (map fst vars)" by simp
      with that Update have "k \<notin> set objectPrototypeNames" by (auto simp: call_keys_def)
      from capture_covers [OF k this, of env s] show "k \<in> fst ` set ?s'"
        by (simp add: map_of_eq_None_iff)
    qed
    have keep: "\<forall>k x. map_of s k = Some x \<longrightarrow> map_of ?s' k = Some x"
      by (simp add: capture_keeps)
    show ?thesis
      by (rule exI [of _ "map JString profs"], rule exI [of _ ?v'], rule exI [of _ ?s'])
         (use run cov keep in blast)
  next
    case (AddProfiles profs vars)
    let ?s' = "captureSnapshot env s (map fst vars)"
    let ?v' = "foldl (\<lambda>acc (k, e). AList.update k (env_json e) acc) v vars"
    let ?p' = "foldl (\<lambda>ps p. if JString p \<in> set ps then ps else ps @ [JString p]) p profs"
    have run: "run_call c env now f =
        Inr (state_object ?p' ?v' ?s' now, save (state_object ?p' ?v' ?s' now))"
      by (simp add: AddProfiles addProfiles_def ld state_members spread_def iterate_def Let_def)
    have cov: "fst ` set ?v' \<subseteq> fst ` set ?s'"
      if no: "set (call_keys c) \<inter> set objectPrototypeNames = {}"
        and old: "fst ` set v \<subseteq> fst ` set s"
    proof
      fix k assume "k \<in> fst ` set ?v'"
      then have "k \<in> fst ` set v \<or> k \<in> set (map fst vars)"
        by (simp add: assign_all_keys)
      then show "k \<in> fst ` set ?s'"
      proof
        assume "k \<in> fst ` set v"
        with old obtain x where "map_of s k = Some x"
          by (metis map_of_eq_None_iff not_Some_eq subsetD)
        from capture_keeps [OF this, of env "map fst vars"] show ?thesis
          by (metis map_of_eq_None_iff option.distinct(1))
      next
        assume k: "k \<in> set (map fst vars)"
        with no AddProfiles have "k \<notin> set objectPrototypeNames" by (auto simp: call_keys_def)
        from capture_covers [OF k this, of env s] show ?thesis
          by (simp add: map_of_eq_None_iff)
      qed
    qed
    have keep: "\<forall>k x. map_of s k = Some x \<longrightarrow> map_of ?s' k = Some x"
      by (simp add: capture_keeps)
    show ?thesis
      by (rule exI [of _ ?p'], rule exI [of _ ?v'], rule exI [of _ ?s'])
         (use run cov keep in blast)
  qed
qed

lemma run_calls_state:
  assumes "stored f = state_object p v s t"
  shows "\<exists>f' p' v' s' t'. run_calls cs f = Inr f' \<and> stored f' = state_object p' v' s' t'
     \<and> (\<forall>k x. map_of s k = Some x \<longrightarrow> map_of s' k = Some x)
     \<and> ((\<forall>c \<in> set cs. set (call_keys (fst c)) \<inter> set objectPrototypeNames = {}) \<longrightarrow>
          fst ` set v \<subseteq> fst ` set s \<longrightarrow> fst ` set v' \<subseteq> fst ` set s')"
  using assms
proof (induction cs arbitrary: f p v s t)
  case Nil
  then show ?case by auto
next
  case (Cons a cs)
  obtain c env now where a: "a = (c, env, now)" by (cases a) auto
  from run_call_step [OF Cons.prems, of c env now] obtain p1 v1 s1 where
    st: "run_call c env now f = Inr (state_object p1 v1 s1 now, save (state_object p1 v1 s1 now))"
    and keep: "\<forall>k x. map_of s k = Some x \<longrightarrow> map_of s1 k = Some x"
    and cov: "set (call_keys c) \<inter> set objectPrototypeNames = {} \<longrightarrow>
          fst ` set v \<subseteq> fst ` set s \<longrightarrow> fst ` set v1 \<subseteq> fst ` set s1"
    by blast
  have "stored (save (state_object p1 v1 s1 now)) = state_object p1 v1 s1 now"
    by (rule stored_save)
  from Cons.IH [OF this] obtain f' p' v' s' t' where
    f': "run_calls cs (save (state_object p1 v1 s1 now)) = Inr f'"
    and st': "stored f' = state_object p' v' s' t'"
    and keep': "\<forall>k x. map_of s1 k = Some x \<longrightarrow> map_of s' k = Some x"
    and cov': "(\<forall>c \<in> set cs. set (call_keys (fst c)) \<inter> set objectPrototypeNames = {}) \<longrightarrow>
          fst ` set v1 \<subseteq> fst ` set s1 \<longrightarrow> fst ` set v' \<subseteq> fst ` set s'"
    by blast
  have run: "run_calls (a # cs) f = Inr f'" using a st f' by simp
  have k: "\<forall>k x. map_of s k = Some x \<longrightarrow> map_of s' k = Some x" using keep keep' by blast
  have c: "(\<forall>c \<in> set (a # cs). set (call_keys (fst c)) \<inter> set objectPrototypeNames = {}) \<longrightarrow>
          fst ` set v \<subseteq> fst ` set s \<longrightarrow> fst ` set v' \<subseteq> fst ` set s'"
    using cov cov' a by simp
  show ?case
    by (rule exI [of _ f'], rule exI [of _ p'], rule exI [of _ v'], rule exI [of _ s'],
        rule exI [of _ t']) (use run st' k c in blast)
qed

lemma run_calls_append:
  "run_calls cs f = Inr f' \<Longrightarrow> run_calls (cs @ cs') f = run_calls cs' f'"
  by (induction cs arbitrary: f) (auto split: sum.splits)

lemma members_state:
  "members (state_object p v s t) ''variables'' = v"
  "members (state_object p v s t) ''snapshot'' = s"
  by (simp_all add: members_def state_object_def)

text \<open>What holds of every sequence of calls from the empty state: no call fails, an
  entry of the snapshot is kept by all later calls, and as long as no call brings a key
  that objects inherit, every key of the variables is a key of the snapshot.\<close>

lemma snapshot_from_empty:
  assumes "f0 = None \<or> f0 = save (getEmptyState t0)"
  shows "\<exists>f1 f2. run_calls cs f0 = Inr f1 \<and> run_calls (cs @ cs') f0 = Inr f2
     \<and> (\<forall>k x. map_of (members (stored f1) ''snapshot'') k = Some x \<longrightarrow>
               map_of (members (stored f2) ''snapshot'') k = Some x)
     \<and> ((\<forall>c \<in> set cs. set (call_keys (fst c)) \<inter> set objectPrototypeNames = {}) \<longrightarrow>
          fst ` set (members (stored f1) ''variables'')
            \<subseteq> fst ` set (members (stored f1) ''snapshot''))"
proof -
  have s0: "stored f0 = state_object [] [] [] (if f0 = None then [] else t0)"
    using assms by (auto simp: stored_def save_def getEmptyState_def)
  from run_calls_state [OF s0, of cs] obtain f1 p1 v1 s1 t1 where
    f1: "run_calls cs f0 = Inr f1" and st1: "stored f1 = state_object p1 v1 s1 t1"
    and cov0: "(\<forall>c \<in> set cs. set (call_keys (fst c)) \<inter> set objectPrototypeNames = {}) \<longrightarrow>
          fst ` set ([] :: (string \<times> json) list) \<subseteq> fst ` set ([] :: (string \<times> json) list) \<longrightarrow>
          fst ` set v1 \<subseteq> fst ` set s1"
    by (elim exE conjE) (rule that)
  from cov0 have cov: "(\<forall>c \<in> set cs. set (call_keys (fst c)) \<inter> set objectPrototypeNames = {}) \<longrightarrow>
          fst ` set v1 \<subseteq> fst ` set s1"
    by simp
  from run_calls_state [OF st1, of cs'] obtain f2 p2 v2 s2 t2 where
    f2: "run_calls cs' f1 = Inr f2" and st2: "stored f2 = state_object p2 v2 s2 t2"
    and keep: "\<forall>k x. map_of s1 k = Some x \<longrightarrow> map_of s2 k = Some x"
    by (elim exE conjE) (rule that)
  from f1 f2 have app: "run_calls (cs @ cs') f0 = Inr f2" by (simp add: run_calls_append)
  have m1: "members (stored f1) ''snapshot'' = s1" "members (stored f1) ''variables'' = v1"
    unfolding st1 by (rule members_state)+
  have m2: "members (stored f2) ''snapshot'' = s2"
    unfolding st2 by (rule members_state)
  show ?thesis
  proof (rule exI [of _ f1], rule exI [of _ f2], intro conjI)
    show "run_calls cs f0 = Inr f1" by (rule f1)
    show "run_calls (cs @ cs') f0 = Inr f2" by (rule app)
    show "\<forall>k x. map_of (members (stored f1) ''snapshot'') k = Some x \<longrightarrow>
               map_of (members (stored f2) ''snapshot'') k = Some x"
      unfolding m1 m2 by (rule keep)
    show "(\<forall>c \<in> set cs. set (call_keys (fst c)) \<inter> set objectPrototypeNames = {}) \<longrightarrow>
          fst ` set (members (stored f1) ''variables'')
            \<subseteq> fst ` set (members (stored f1) ''snapshot'')"
      unfolding m1 by (rule cov)
  qed
qed

text \<open>
  C3. An entry of the snapshot, once captured, is kept by every later call
  (\<open>snapshot_from_empty\<close>). But a key is captured only when \<^verbatim>\<open>key in snapshot\<close> is false,
  and that test is true for every name that the snapshot inherits from
  \<^verbatim>\<open>Object.prototype\<close>: after \<open>update\<close> from the empty state with the variables
  \<open>constructor\<close> and \<open>KEY1\<close>, the state has both keys in \<open>variables\<close> and only \<open>KEY1\<close> in
  \<open>snapshot\<close>.
\<close>

theorem update_inherited_key:
  "run_calls
     [(Update [''p'']
         [(''constructor'', \<lparr>var_value = ''x'', var_source = ''p''\<rparr>),
          (''KEY1'', \<lparr>var_value = ''a'', var_source = ''p''\<rparr>)],
       [''KEY1'' \<mapsto> ''orig'', ''constructor'' \<mapsto> ''before''], ''t1'')]
     None
   = Inr (save (JObject
       [(''active_profiles'', JArray [JString ''p'']),
        (''variables'', JObject
           [(''constructor'', JObject [(''value'', JString ''x''), (''source'', JString ''p'')]),
            (''KEY1'', JObject [(''value'', JString ''a''), (''source'', JString ''p'')])]),
        (''snapshot'', JObject [(''KEY1'', JString ''orig'')]),
        (''applied_at'', JString ''t1'')]))"
  by (simp add: update_def load_cases member_def getEmptyState_def state_object_def spread_def
      captureSnapshot_def has_property_def get_property_def objectPrototypeNames_def assign_def
      env_json_def Let_def)

section \<open>Parsing profile bodies\<close>

lemma indexOf_char:
  "indexOf t [c] =
     (if c \<in> set t then Some (length (takeWhile (\<lambda>x. x \<noteq> c) t)) else None)"
  by (induction t) auto

lemma drop_after_takeWhile:
  "drop (Suc (length (takeWhile P t))) t = tl (dropWhile P t)"
  by (induction t) auto

lemma take_takeWhile: "take (length (takeWhile P t)) t = takeWhile P t"
  by (induction t) auto

lemma startsWith_char: "startsWith t [c] \<longleftrightarrow> t \<noteq> [] \<and> hd t = c"
  by (cases t) (auto simp: startsWith_def)

lemma endsWith_char: "endsWith t [c] \<longleftrightarrow> t \<noteq> [] \<and> last t = c"
  by (cases t rule: rev_cases) (auto simp: endsWith_def)

lemma slice_1_m1_eq: "slice_1_m1 v = butlast (tl v)"
  by (simp add: slice_1_m1_def butlast_conv_take drop_Suc numeral_2_eq_2)

lemma code_strip_quotes:
  "(if (startsWith v [dquote] \<and> endsWith v [dquote]) \<or>
       (startsWith v [squote] \<and> endsWith v [squote])
    then slice_1_m1 v else v) =
   (if v = [squote] \<or> v = [dquote] then [] else spec_strip_quotes v)"
proof (cases v)
  case Nil
  then show ?thesis by (simp add: startsWith_char spec_strip_quotes_def)
next
  case (Cons a w)
  show ?thesis
  proof (cases w)
    case Nil
    with Cons show ?thesis
      by (auto simp: startsWith_char endsWith_char slice_1_m1_eq spec_strip_quotes_def)
  next
    case (Cons b u)
    with \<open>v = a # w\<close> show ?thesis
      by (auto simp: startsWith_char endsWith_char slice_1_m1_eq spec_strip_quotes_def
          squote_def dquote_def)
  qed
qed

lemma parseVariablesLine_spec:
  "parseVariablesLine line vars =
     (case spec_split_line line of
        None \<Rightarrow> vars
      | Some (k, v) \<Rightarrow>
          assign k (if v = [squote] \<or> v = [dquote] then [] else spec_strip_quotes v) vars)"
  unfolding parseVariablesLine_def spec_split_line_def Let_def code_strip_quotes
  by (simp add: indexOf_char startsWith_char drop_after_takeWhile take_takeWhile)

text \<open>
  C9. \<open>parseVariables\<close> ignores the lines that \<open>spec_split_line\<close> ignores and splits the
  others as it does (see \<open>parseVariablesLine_spec\<close>; the entry is made by the assignment
  \<open>assign\<close>, which makes none for the key \<^verbatim>\<open>__proto__\<close>), but it strips quotes from a
  value that is a single quote character, which has no pair of quotes around it: the line
  \<^verbatim>\<open>K="\<close> gives \<open>K\<close> the empty value, where the specification gives it the value \<^verbatim>\<open>"\<close>.
\<close>

theorem parseVariables_lone_quote:
  "parseVariables (''K='' @ [dquote]) = [(''K'', [])]
   \<and> spec_parseVariables (''K='' @ [dquote]) = [(''K'', [dquote])]"
  by (simp add: parseVariables_def spec_parseVariables_def parseVariablesLine_spec
      spec_split_line_def spec_strip_quotes_def trim_def isSpace_def newline_def dquote_def
      squote_def assign_def)

section \<open>Rendering export statements\<close>

lemma posix_quoted_sanitized:
  "posix_word True (sanitizeForShell v @ [squote]) = Some v"
  by (induction v) (simp_all add: sanitizeForShell_def squote_def bslash_def newline_def)

lemma valid_name_no_sep:
  "valid_name key \<Longrightarrow> CHR ''='' \<notin> set key \<and> CHR '' '' \<notin> set key"
proof -
  assume "valid_name key"
  then have all: "\<forall>c \<in> set key. name_char c" by (simp add: valid_name_def list_all_iff)
  have "\<not> name_char (CHR ''='')" "\<not> name_char (CHR '' '')"
    by (simp_all add: name_char_def)
  with all show ?thesis by blast
qed

lemma takeWhile_key:
  "c \<notin> set key \<Longrightarrow> takeWhile (\<lambda>x. x \<noteq> c) (key @ c # w) = key
     \<and> dropWhile (\<lambda>x. x \<noteq> c) (key @ c # w) = c # w"
  by (induction key) auto

lemma posix_export_roundtrip:
  assumes "valid_name key" and "shell \<noteq> Fish"
  shows "shell_eval shell (generateExport shell key v) = Some (key, v)"
proof -
  have stmt: "generateExport shell key v =
      ''export '' @ key @ CHR ''='' # squote # sanitizeForShell v @ [squote]"
    using assms(2) by (cases shell) (simp_all add: generateExport_def)
  from valid_name_no_sep [OF assms(1)] have "CHR ''='' \<notin> set key" by simp
  note tk = takeWhile_key [OF this]
  have "eval_export (generateExport shell key v) = Some (key, v)"
    unfolding stmt using assms(1)
    by (simp add: eval_export_def Let_def tk posix_quoted_sanitized)
  with assms(2) show ?thesis
    by (cases shell) (simp_all add: shell_eval_def)
qed

lemma fish_quoted_sanitized:
  "bslash \<notin> set v \<Longrightarrow> fish_word True (sanitizeForShell v @ [squote]) = Some v"
  by (induction v) (auto simp: sanitizeForShell_def squote_def bslash_def)

lemma fish_export_roundtrip:
  assumes "valid_name key" and "bslash \<notin> set v"
  shows "shell_eval Fish (generateExport Fish key v) = Some (key, v)"
proof -
  have stmt: "generateExport Fish key v =
      ''set -gx '' @ key @ CHR '' '' # squote # sanitizeForShell v @ [squote]"
    by (simp add: generateExport_def)
  from valid_name_no_sep [OF assms(1)] have "CHR '' '' \<notin> set key" by simp
  note tk = takeWhile_key [OF this]
  show ?thesis
    unfolding stmt shell_eval_def using assms
    by (simp add: eval_set_gx_def Let_def tk fish_quoted_sanitized)
qed

text \<open>
  C2. In bash and zsh the rendered statement assigns the original value, whatever the
  value (\<open>posix_export_roundtrip\<close>), and so it does in fish for a value without a backslash
  (\<open>fish_export_roundtrip\<close>). In fish a backslash inside single quotes escapes a following
  backslash or quote, and \<open>sanitizeForShell\<close> leaves backslashes as they are: for the value of
  two backslashes fish assigns one backslash, and for the value of one backslash the
  rendered statement has an open quote and assigns nothing.
\<close>

theorem fish_export_backslash:
  "generateExport Fish ''K'' [bslash, bslash] = ''set -gx K '' @ [squote, bslash, bslash, squote]
   \<and> shell_eval Fish (generateExport Fish ''K'' [bslash, bslash]) = Some (''K'', [bslash])
   \<and> shell_eval Fish (generateExport Fish ''K'' [bslash]) = None"
  by (simp add: generateExport_def sanitizeForShell_def shell_eval_def eval_set_gx_def
      valid_name_def name_char_def squote_def bslash_def)

section \<open>Installing the shell wrapper\<close>

subsection \<open>Searching across a line break\<close>

lemma prefix_across_newline:
  assumes "c \<notin> set pat"
  shows "prefix pat (u @ c # v) \<longleftrightarrow> prefix pat u"
proof
  assume "prefix pat (u @ c # v)"
  then have "prefix pat u \<or> (\<exists>ps. pat = u @ ps \<and> prefix ps (c # v))"
    by (simp add: prefix_append)
  then show "prefix pat u"
  proof
    assume "prefix pat u"
    then show ?thesis .
  next
    assume "\<exists>ps. pat = u @ ps \<and> prefix ps (c # v)"
    then obtain ps where ps: "pat = u @ ps" "prefix ps (c # v)" by blast
    show ?thesis
    proof (cases ps)
      case Nil
      with ps show ?thesis by simp
    next
      case (Cons a ps')
      with ps have "a = c" by simp
      with Cons ps assms show ?thesis by simp
    qed
  qed
next
  assume "prefix pat u"
  then show "prefix pat (u @ c # v)" by (rule prefix_prefix)
qed

lemma indexOf_across_newline:
  assumes "c \<notin> set pat" and "pat \<noteq> []"
  shows "indexOf (u @ c # v) pat =
     (case indexOf u pat of
        Some i \<Rightarrow> Some i
      | None \<Rightarrow> map_option (\<lambda>j. Suc (length u + j)) (indexOf v pat))"
proof (induction u)
  case Nil
  from assms have "\<not> prefix pat (c # v)" by (cases pat) auto
  with assms show ?case by simp
next
  case (Cons a u)
  have "prefix pat (a # u @ c # v) \<longleftrightarrow> prefix pat (a # u)"
    using prefix_across_newline [OF assms(1), of "a # u" v] by simp
  with Cons show ?case
    by (auto simp: option.map_comp comp_def split: option.splits)
qed

lemma occurrences_across_newline:
  assumes "c \<notin> set pat" and "pat \<noteq> []"
  shows "occurrences (u @ c # v) pat = occurrences u pat + occurrences v pat"
proof (induction u)
  case Nil
  from assms have "\<not> prefix pat (c # v)" by (cases pat) auto
  with assms show ?case by simp
next
  case (Cons a u)
  have "prefix pat (a # u @ c # v) \<longleftrightarrow> prefix pat (a # u)"
    using prefix_across_newline [OF assms(1), of "a # u" v] by simp
  with Cons show ?case by simp
qed

lemma occurrences_zero: "occurrences s pat = 0 \<longleftrightarrow> indexOf s pat = None"
  by (induction s) auto

lemma indexOf_at_start: "indexOf (pat @ w) pat = Some 0"
proof (cases "pat @ w")
  case Nil
  then show ?thesis by simp
next
  case (Cons a list)
  have "prefix pat (pat @ w)" by simp
  with Cons show ?thesis by simp
qed

lemma indexOf_append_None: "indexOf (x @ y) pat = None \<Longrightarrow> indexOf x pat = None"
proof (induction x)
  case Nil
  then show ?case by (cases y) (auto split: if_splits)
next
  case (Cons a x)
  have "prefix pat (a # x) \<Longrightarrow> prefix pat (a # x @ y)"
    using prefix_prefix [of pat "a # x" y] by simp
  with Cons show ?case by (auto split: if_splits)
qed

lemma indexOf_join_lines:
  assumes "c = newline" "c \<notin> set pat" "pat \<noteq> []"
  shows "\<forall>l \<in> set ls. indexOf l pat = None \<Longrightarrow> indexOf (join_lines ls) pat = None"
proof (induction ls rule: join_lines.induct)
  case 1
  with assms show ?case by simp
next
  case (2 l)
  then show ?case by simp
next
  case (3 l l' ls)
  then show ?case
    using indexOf_across_newline [of newline pat l "join_lines (l' # ls)"] assms
    by simp
qed

subsection \<open>Newlines at the ends\<close>

lemma stripTrailing_newline [simp]: "stripTrailingNewlines (u @ [newline]) = stripTrailingNewlines u"
  by (simp add: stripTrailingNewlines_def)

lemma stripTrailing_idem [simp]:
  "stripTrailingNewlines (stripTrailingNewlines u) = stripTrailingNewlines u"
  by (simp add: stripTrailingNewlines_def dropWhile_idem)

lemma stripTrailing_decomp:
  "\<exists>n. u = stripTrailingNewlines u @ replicate n newline"
proof -
  have "rev u = takeWhile (\<lambda>c. c = newline) (rev u) @ dropWhile (\<lambda>c. c = newline) (rev u)"
    by simp
  then have "u = rev (dropWhile (\<lambda>c. c = newline) (rev u)) @ rev (takeWhile (\<lambda>c. c = newline) (rev u))"
    by (metis rev_append rev_rev_ident)
  moreover have "rev (takeWhile (\<lambda>c. c = newline) (rev u)) =
      replicate (length (takeWhile (\<lambda>c. c = newline) (rev u))) newline"
  proof -
    have "\<forall>y \<in> set (rev (takeWhile (\<lambda>c. c = newline) (rev u))). y = newline"
      by (auto dest: set_takeWhileD)
    from replicate_length_same [OF this] show ?thesis by simp
  qed
  ultimately show ?thesis unfolding stripTrailingNewlines_def by metis
qed

lemma stripTrailing_no_newline: "\<not> endsWith (stripTrailingNewlines u) [newline]"
proof -
  let ?d = "dropWhile (\<lambda>c. c = newline) (rev u)"
  have "?d = [] \<or> hd ?d \<noteq> newline"
    using hd_dropWhile [of "\<lambda>c. c = newline" "rev u"] by blast
  then show ?thesis
    unfolding stripTrailingNewlines_def endsWith_char by (auto simp: last_rev)
qed

subsection \<open>The markers and the wrapper text\<close>

lemma marker_facts:
  "newline \<notin> set getMarkerStart" "newline \<notin> set getMarkerEnd"
  "getMarkerStart \<noteq> []" "getMarkerEnd \<noteq> []"
  by (simp_all add: getMarkerStart_def getMarkerEnd_def newline_def)

lemma marker_in_marker:
  "indexOf getMarkerStart getMarkerEnd = None" "indexOf getMarkerEnd getMarkerStart = None"
  "occurrences getMarkerStart getMarkerStart = 1" "occurrences getMarkerEnd getMarkerEnd = 1"
  by (simp_all add: getMarkerStart_def getMarkerEnd_def)

lemma bash_lines_no_marker:
  "\<forall>l \<in> set bashZshWrapperLines. indexOf l getMarkerStart = None"
  "\<forall>l \<in> set bashZshWrapperLines. indexOf l getMarkerEnd = None"
  by (simp_all add: bashZshWrapperLines_def getMarkerStart_def getMarkerEnd_def)

lemma fish_lines_no_marker:
  "\<forall>l \<in> set fishWrapperLines. indexOf l getMarkerStart = None"
  "\<forall>l \<in> set fishWrapperLines. indexOf l getMarkerEnd = None"
  by (simp_all add: fishWrapperLines_def getMarkerStart_def getMarkerEnd_def squote_def)

lemma wrapper_no_marker:
  "indexOf (getShellWrapper sh) getMarkerStart = None"
  "indexOf (getShellWrapper sh) getMarkerEnd = None"
proof -
  note j = indexOf_join_lines [OF refl]
  have "indexOf getBashZshWrapper getMarkerStart = None" "indexOf getFishWrapper getMarkerStart = None"
    "indexOf getBashZshWrapper getMarkerEnd = None" "indexOf getFishWrapper getMarkerEnd = None"
    unfolding getBashZshWrapper_def getFishWrapper_def
    by (intro j marker_facts bash_lines_no_marker fish_lines_no_marker)+
  then show "indexOf (getShellWrapper sh) getMarkerStart = None"
    "indexOf (getShellWrapper sh) getMarkerEnd = None"
    by (cases sh; simp add: getShellWrapper_def)+
qed

subsection \<open>Content that ends with the block\<close>

lemma block_newline:
  "getFullWrapperBlock sh @ [newline] =
     getMarkerStart @ newline # (getShellWrapper sh @ newline # (getMarkerEnd @ newline # []))"
  by (simp add: getFullWrapperBlock_def)

lemma block_indexOf:
  "indexOf (getFullWrapperBlock sh @ [newline]) getMarkerStart = Some 0"
  "indexOf (getFullWrapperBlock sh @ [newline]) getMarkerEnd =
     Some (Suc (length getMarkerStart + Suc (length (getShellWrapper sh))))"
  unfolding block_newline
  by (simp_all add: indexOf_at_start indexOf_across_newline marker_facts marker_in_marker
      wrapper_no_marker)

lemma block_occurrences:
  "occurrences (getFullWrapperBlock sh @ [newline]) getMarkerStart = 1"
  "occurrences (getFullWrapperBlock sh @ [newline]) getMarkerEnd = 1"
  unfolding block_newline
  by (simp_all add: occurrences_across_newline marker_facts marker_in_marker
      wrapper_no_marker occurrences_zero [THEN iffD2])

lemma installed_indexOf:
  assumes "indexOf pre getMarkerStart = None" and "indexOf pre getMarkerEnd = None"
  shows "indexOf (pre @ newline # getFullWrapperBlock sh @ [newline]) getMarkerStart =
           Some (Suc (length pre))"
    and "indexOf (pre @ newline # getFullWrapperBlock sh @ [newline]) getMarkerEnd =
           Some (Suc (length pre) + Suc (length getMarkerStart + Suc (length (getShellWrapper sh))))"
    and "occurrences (pre @ newline # getFullWrapperBlock sh @ [newline]) getMarkerStart = 1"
    and "occurrences (pre @ newline # getFullWrapperBlock sh @ [newline]) getMarkerEnd = 1"
  using assms
  by (simp_all add: indexOf_across_newline occurrences_across_newline marker_facts
      block_indexOf block_occurrences occurrences_zero [THEN iffD2])

lemma installed_removeWrapper:
  assumes "indexOf pre getMarkerStart = None" and "indexOf pre getMarkerEnd = None"
  shows "removeWrapper (pre @ newline # getFullWrapperBlock sh @ [newline]) =
           stripTrailingNewlines pre"
proof -
  let ?a = "pre @ newline # getFullWrapperBlock sh @ [newline]"
  have len: "Suc (length pre) + Suc (length getMarkerStart + Suc (length (getShellWrapper sh)))
               + length getMarkerEnd = length (pre @ newline # getFullWrapperBlock sh)"
    by (simp add: getFullWrapperBlock_def)
  have tk: "take (Suc (length pre)) ?a = pre @ [newline]" by simp
  have "?a = (pre @ newline # getFullWrapperBlock sh) @ [newline]" by simp
  then have dr: "drop (length (pre @ newline # getFullWrapperBlock sh)) ?a = [newline]"
    by (metis append_eq_conv_conj)
  show ?thesis
    unfolding removeWrapper_def installed_indexOf [OF assms] option.case Let_def len tk dr
    by (simp add: stripLeadingNewlines_def)
qed

lemma no_marker_newline:
  assumes "c = newline" "c \<notin> set pat" "pat \<noteq> []" "indexOf u pat = None"
  shows "indexOf (u @ [c]) pat = None"
  using indexOf_across_newline [of c pat u "[]"] assms by simp

lemma addWrapper_shape:
  assumes "indexOf cl getMarkerStart = None" and "indexOf cl getMarkerEnd = None"
    and "sep = [newline] \<or> sep = [newline, newline]"
  shows "removeWrapper (cl @ sep @ getFullWrapperBlock sh @ [newline]) = stripTrailingNewlines cl"
    and "occurrences (cl @ sep @ getFullWrapperBlock sh @ [newline]) getMarkerStart = 1"
    and "occurrences (cl @ sep @ getFullWrapperBlock sh @ [newline]) getMarkerEnd = 1"
proof -
  note nm = no_marker_newline [OF refl]
  have a: "indexOf (cl @ [newline]) getMarkerStart = None"
    "indexOf (cl @ [newline]) getMarkerEnd = None"
    using assms(1,2) by (simp_all add: nm marker_facts)
  from assms(3) show "removeWrapper (cl @ sep @ getFullWrapperBlock sh @ [newline]) =
      stripTrailingNewlines cl"
    using installed_removeWrapper [OF assms(1,2), of sh] installed_removeWrapper [OF a, of sh]
    by auto
  from assms(3) show "occurrences (cl @ sep @ getFullWrapperBlock sh @ [newline]) getMarkerStart = 1"
    using installed_indexOf(3) [OF assms(1,2), of sh] installed_indexOf(3) [OF a, of sh]
    by auto
  from assms(3) show "occurrences (cl @ sep @ getFullWrapperBlock sh @ [newline]) getMarkerEnd = 1"
    using installed_indexOf(4) [OF assms(1,2), of sh] installed_indexOf(4) [OF a, of sh]
    by auto
qed

subsection \<open>Installing once and again\<close>

lemma addWrapper_first:
  "addWrapper sh content =
     removeWrapper content
       @ (if endsWith (removeWrapper content) [newline] then [newline] else [newline, newline])
       @ getFullWrapperBlock sh @ [newline]"
  by (simp add: addWrapper_def Let_def)

lemma stripTrailing_no_marker:
  "indexOf cl pat = None \<Longrightarrow> indexOf (stripTrailingNewlines cl) pat = None"
proof -
  obtain n where "cl = stripTrailingNewlines cl @ replicate n newline"
    using stripTrailing_decomp by blast
  then show "indexOf cl pat = None \<Longrightarrow> indexOf (stripTrailingNewlines cl) pat = None"
    using indexOf_append_None [of "stripTrailingNewlines cl" "replicate n newline" pat] by simp
qed

lemma addWrapper_second:
  assumes "indexOf (removeWrapper content) getMarkerStart = None"
    and "indexOf (removeWrapper content) getMarkerEnd = None"
  shows "addWrapper sh (addWrapper sh content) =
     stripTrailingNewlines (removeWrapper content) @ [newline, newline]
       @ getFullWrapperBlock sh @ [newline]"
proof -
  let ?cl = "removeWrapper content"
  let ?sep = "if endsWith ?cl [newline] then [newline] else [newline, newline]"
  have sep: "?sep = [newline] \<or> ?sep = [newline, newline]" by simp
  have "removeWrapper (addWrapper sh content) = stripTrailingNewlines ?cl"
    unfolding addWrapper_first [of sh content] by (rule addWrapper_shape(1) [OF assms sep])
  then show ?thesis
    unfolding addWrapper_first [of sh "addWrapper sh content"]
    by (simp add: stripTrailing_no_newline)
qed

lemma same_unless_blank_line_aux:
  assumes "\<not> endsWith rs [newline]"
    and "\<not> endsWith (rs @ replicate n newline) [newline, newline]"
  shows "(rs @ replicate n newline)
           @ (if endsWith (rs @ replicate n newline) [newline] then [newline]
              else [newline, newline]) =
         rs @ [newline, newline]"
proof (cases n)
  case 0
  with assms(1) show ?thesis by simp
next
  case (Suc m)
  show ?thesis
  proof (cases m)
    case 0
    with Suc show ?thesis by (simp add: endsWith_char)
  next
    case (Suc k)
    have "replicate (k + 2) newline = replicate k newline @ replicate 2 newline"
      by (rule replicate_add)
    then have "replicate (Suc (Suc k)) newline = replicate k newline @ [newline, newline]"
      by (simp add: numeral_2_eq_2)
    then have "rs @ replicate n newline = (rs @ replicate k newline) @ [newline, newline]"
      using \<open>n = Suc m\<close> Suc by simp
    then have "endsWith (rs @ replicate n newline) [newline, newline]"
      unfolding endsWith_def by (rule suffixI)
    with assms(2) show ?thesis by simp
  qed
qed

lemma same_unless_blank_line:
  assumes "\<not> endsWith cl [newline, newline]"
  shows "cl @ (if endsWith cl [newline] then [newline] else [newline, newline]) =
         stripTrailingNewlines cl @ [newline, newline]"
proof -
  define rs where "rs = stripTrailingNewlines cl"
  obtain n where n: "cl = rs @ replicate n newline"
    unfolding rs_def using stripTrailing_decomp by blast
  have a: "\<not> endsWith rs [newline]"
    unfolding rs_def by (rule stripTrailing_no_newline)
  from assms have b: "\<not> endsWith (rs @ replicate n newline) [newline, newline]"
    unfolding n .
  from same_unless_blank_line_aux [OF a b, folded n] show ?thesis
    unfolding rs_def .
qed

text \<open>
  C8, as amended. Let the content be such that \<open>removeWrapper\<close> leaves no marker in it (as
  for content without markers, and for content with one block). Then \<open>addWrapper\<close> gives
  content with one start marker and one end marker. A second \<open>addWrapper\<close> replaces the
  block: its result is the cleaned content without its trailing newlines, an empty line,
  the block and a newline, again with one start and one end marker, and any further
  \<open>addWrapper\<close> leaves this result as it is. The second result is the first one when the
  cleaned content does not end with an empty line.
\<close>

theorem addWrapper_reinstall:
  assumes "\<not> includes_str (removeWrapper content) getMarkerStart"
    and "\<not> includes_str (removeWrapper content) getMarkerEnd"
  shows "occurrences (addWrapper sh content) getMarkerStart = 1
     \<and> occurrences (addWrapper sh content) getMarkerEnd = 1
     \<and> addWrapper sh (addWrapper sh content) =
         stripTrailingNewlines (removeWrapper content) @ [newline, newline]
           @ getFullWrapperBlock sh @ [newline]
     \<and> occurrences (addWrapper sh (addWrapper sh content)) getMarkerStart = 1
     \<and> occurrences (addWrapper sh (addWrapper sh content)) getMarkerEnd = 1
     \<and> addWrapper sh (addWrapper sh (addWrapper sh content)) = addWrapper sh (addWrapper sh content)
     \<and> (\<not> endsWith (removeWrapper content) [newline, newline] \<longrightarrow>
           addWrapper sh (addWrapper sh content) = addWrapper sh content)"
proof -
  let ?cl = "removeWrapper content"
  let ?rs = "stripTrailingNewlines ?cl"
  let ?sep = "if endsWith ?cl [newline] then [newline] else [newline, newline]"
  from assms have no: "indexOf ?cl getMarkerStart = None" "indexOf ?cl getMarkerEnd = None"
    by (simp_all add: includes_str_def)
  have sep: "?sep = [newline] \<or> ?sep = [newline, newline]" by simp
  have two: "[newline, newline] = [newline] \<or> [newline, newline] = [newline, newline]" by simp
  have o1: "occurrences (addWrapper sh content) getMarkerStart = 1"
    "occurrences (addWrapper sh content) getMarkerEnd = 1"
    unfolding addWrapper_first [of sh content]
    by (rule addWrapper_shape(2,3) [OF no sep])+
  note second = addWrapper_second [OF no, of sh]
  have no_rs: "indexOf ?rs getMarkerStart = None" "indexOf ?rs getMarkerEnd = None"
    using no by (simp_all add: stripTrailing_no_marker)
  have o2: "occurrences (addWrapper sh (addWrapper sh content)) getMarkerStart = 1"
    "occurrences (addWrapper sh (addWrapper sh content)) getMarkerEnd = 1"
    unfolding second by (rule addWrapper_shape(2,3) [OF no_rs two])+
  have "removeWrapper (addWrapper sh (addWrapper sh content)) = ?rs"
    unfolding second using addWrapper_shape(1) [OF no_rs two, of sh] by simp
  then have third: "addWrapper sh (addWrapper sh (addWrapper sh content)) =
      addWrapper sh (addWrapper sh content)"
    unfolding addWrapper_first [of sh "addWrapper sh (addWrapper sh content)"]
    by (simp add: second stripTrailing_no_newline)
  have same: "addWrapper sh (addWrapper sh content) = addWrapper sh content"
    if "\<not> endsWith ?cl [newline, newline]"
  proof -
    have "(?cl @ ?sep) @ getFullWrapperBlock sh @ [newline] =
          (?rs @ [newline, newline]) @ getFullWrapperBlock sh @ [newline]"
      by (simp only: same_unless_blank_line [OF that])
    then have eq: "?cl @ ?sep @ getFullWrapperBlock sh @ [newline] =
          ?rs @ [newline, newline] @ getFullWrapperBlock sh @ [newline]"
      by (simp only: append_assoc)
    have "addWrapper sh (addWrapper sh content) =
          ?rs @ [newline, newline] @ getFullWrapperBlock sh @ [newline]"
      by (rule second)
    also have "\<dots> = ?cl @ ?sep @ getFullWrapperBlock sh @ [newline]"
      by (rule eq [symmetric])
    also have "\<dots> = addWrapper sh content"
      by (rule addWrapper_first [symmetric])
    finally show ?thesis .
  qed
  show ?thesis
  proof (intro conjI impI)
    show "occurrences (addWrapper sh content) getMarkerStart = 1" by (rule o1(1))
    show "occurrences (addWrapper sh content) getMarkerEnd = 1" by (rule o1(2))
    show "addWrapper sh (addWrapper sh content) =
         stripTrailingNewlines (removeWrapper content) @ [newline, newline]
           @ getFullWrapperBlock sh @ [newline]" by (rule second)
    show "occurrences (addWrapper sh (addWrapper sh content)) getMarkerStart = 1" by (rule o2(1))
    show "occurrences (addWrapper sh (addWrapper sh content)) getMarkerEnd = 1" by (rule o2(2))
    show "addWrapper sh (addWrapper sh (addWrapper sh content)) =
        addWrapper sh (addWrapper sh content)" by (rule third)
    show "addWrapper sh (addWrapper sh content) = addWrapper sh content"
      if "\<not> endsWith (removeWrapper content) [newline, newline]"
      using that by (rule same)
  qed
qed

theorem addWrapper_reinstall_witness:
  "addWrapper Zsh (addWrapper Zsh (''export PATH=/bin'' @ [newline])) =
     addWrapper Zsh (''export PATH=/bin'' @ [newline])
   \<and> occurrences (addWrapper Zsh (''export PATH=/bin'' @ [newline])) getMarkerStart = 1
   \<and> occurrences (addWrapper Zsh (''export PATH=/bin'' @ [newline])) getMarkerEnd = 1
   \<and> addWrapper Zsh (''export PATH=/bin'' @ [newline]) =
       ''export PATH=/bin'' @ [newline, newline] @ getFullWrapperBlock Zsh @ [newline]"
proof -
  let ?c = "''export PATH=/bin'' @ [newline]"
  have rm: "removeWrapper ?c = ?c"
    by (simp add: removeWrapper_def getMarkerStart_def newline_def)
  have h1: "\<not> includes_str (removeWrapper ?c) getMarkerStart"
    unfolding rm by (simp add: includes_str_def getMarkerStart_def newline_def)
  have h2: "\<not> includes_str (removeWrapper ?c) getMarkerEnd"
    unfolding rm by (simp add: includes_str_def getMarkerEnd_def newline_def)
  have h3: "\<not> endsWith (removeWrapper ?c) [newline, newline]"
    unfolding rm by (simp add: endsWith_def suffix_to_prefix newline_def)
  have first: "addWrapper Zsh ?c =
       ''export PATH=/bin'' @ [newline, newline] @ getFullWrapperBlock Zsh @ [newline]"
    unfolding addWrapper_first rm by (simp add: endsWith_char)
  note t = addWrapper_reinstall [OF h1 h2, of Zsh]
  from t have o1: "occurrences (addWrapper Zsh ?c) getMarkerStart = 1" by (rule conjunct1)
  from t have o2: "occurrences (addWrapper Zsh ?c) getMarkerEnd = 1"
    by (elim conjE)
  from t h3 have same: "addWrapper Zsh (addWrapper Zsh ?c) = addWrapper Zsh ?c"
    by (elim conjE impE)
  from same o1 o2 first show ?thesis by (intro conjI)
qed

text \<open>
  As stated, for every content, the claim fails: on content that ends with an empty
  line the second \<open>addWrapper\<close> gives another text than the first, and on content with a
  start marker and no end marker \<open>addWrapper\<close> gives content with two start markers.
\<close>

theorem addWrapper_twice_counterexample:
  "addWrapper Bash (addWrapper Bash (''abc'' @ [newline, newline])) \<noteq>
     addWrapper Bash (''abc'' @ [newline, newline])
   \<and> occurrences (addWrapper Bash getMarkerStart) getMarkerStart = 2"
proof
  let ?c = "''abc'' @ [newline, newline]"
  have rm: "removeWrapper ?c = ?c"
    by (simp add: removeWrapper_def getMarkerStart_def newline_def)
  have no: "indexOf (removeWrapper ?c) getMarkerStart = None"
    "indexOf (removeWrapper ?c) getMarkerEnd = None"
    unfolding rm by (simp_all add: getMarkerStart_def getMarkerEnd_def newline_def)
  have st: "stripTrailingNewlines ?c = ''abc''"
    by (simp add: stripTrailingNewlines_def newline_def)
  have a1: "addWrapper Bash ?c = ''abc'' @ [newline, newline, newline] @ getFullWrapperBlock Bash @ [newline]"
    unfolding addWrapper_first rm by (simp add: endsWith_char)
  have a2: "addWrapper Bash (addWrapper Bash ?c) =
      ''abc'' @ [newline, newline] @ getFullWrapperBlock Bash @ [newline]"
    unfolding addWrapper_second [OF no] rm st ..
  have l2: "length (addWrapper Bash (addWrapper Bash ?c)) =
      6 + length (getFullWrapperBlock Bash)"
    by (subst a2) simp
  have l1: "length (addWrapper Bash ?c) = 7 + length (getFullWrapperBlock Bash)"
    by (subst a1) simp
  from l1 l2 have "length (addWrapper Bash (addWrapper Bash ?c)) \<noteq> length (addWrapper Bash ?c)"
    by simp
  then show "addWrapper Bash (addWrapper Bash ?c) \<noteq> addWrapper Bash ?c" by auto
next
  have "indexOf getMarkerStart getMarkerStart = Some 0"
    using indexOf_at_start [of getMarkerStart "[]"] by simp
  then have rm: "removeWrapper getMarkerStart = getMarkerStart"
    by (simp add: removeWrapper_def marker_in_marker)
  have nl: "\<not> endsWith getMarkerStart [newline]"
    by (simp add: endsWith_char getMarkerStart_def newline_def)
  define T where "T = getFullWrapperBlock Bash @ [newline]"
  have a: "addWrapper Bash getMarkerStart = getMarkerStart @ newline # ([] @ newline # T)"
    unfolding addWrapper_first rm T_def using nl by simp
  note across = occurrences_across_newline [OF marker_facts(1) marker_facts(3)]
  have "occurrences (getMarkerStart @ newline # ([] @ newline # T)) getMarkerStart =
      occurrences getMarkerStart getMarkerStart
        + (occurrences [] getMarkerStart + occurrences T getMarkerStart)"
    by (simp only: across)
  also have "\<dots> = 2"
    unfolding T_def by (simp add: marker_in_marker block_occurrences marker_facts)
  finally show "occurrences (addWrapper Bash getMarkerStart) getMarkerStart = 2"
    unfolding a .
qed

end
